theory Spec2Isabelle
  imports Complex_Main "HOL-Library.Multiset" "HOL-Library.AList"
begin

section \<open>JavaScript values read by the selection code\<close>

text \<open>
  The two selection functions of \<^verbatim>\<open>src/tools/heap-filter.js\<close> read two properties of
  every bullet: \<^verbatim>\<open>company\<close> and \<^verbatim>\<open>relevance_score\<close>. Everything else in a bullet is payload
  that the code never looks at.

  \<^item> \<^verbatim>\<open>company\<close> is tested for truthiness (\<^verbatim>\<open>bullet.company || 'Unknown'\<close>) and then used
    as a property key, so the model keeps the primitive JavaScript values apart:
    an absent property reads as \<^verbatim>\<open>undefined\<close>. Numbers in this position are integers.
  \<^item> \<^verbatim>\<open>relevance_score\<close> is only compared and subtracted. It is a real number, or absent
    (\<open>None\<close>): an absent property reads as \<^verbatim>\<open>undefined\<close>, which every comparison and the
    subtraction turn into NaN. \<open>None\<close> therefore behaves as NaN does. The numbers of
    the language are finite doubles; their comparisons are exact, and the difference of
    two of them has the sign of the exact difference, so the real numbers decide every
    test of the code as the doubles do. The infinities are not modelled.

  The parameters \<^verbatim>\<open>topK\<close> and \<^verbatim>\<open>minScore\<close> are an integer and a number; their defaults
  (5 and 0) are what a caller passes who leaves them out.
\<close>

datatype jsval = JUndefined | JNull | JBool bool | JNum int | JStr string

record 'p bullet =
  company :: jsval
  relevance_score :: "real option"
  payload :: 'p

datatype js_error = TypeError

text \<open>ToBoolean, on the values above.\<close>

fun truthy :: "jsval \<Rightarrow> bool" where
  "truthy JUndefined = False"
| "truthy JNull = False"
| "truthy (JBool b) = b"
| "truthy (JNum n) = (n \<noteq> 0)"
| "truthy (JStr s) = (s \<noteq> [])"

text \<open>\<^verbatim>\<open>a || b\<close>: the left operand when it is truthy, the right one otherwise.\<close>

definition js_or :: "jsval \<Rightarrow> jsval \<Rightarrow> jsval" where
  "js_or a b = (if truthy a then a else b)"

text \<open>
  ToString of an integer, in decimal (what JavaScript prints for an integer below
  \<open>10^21\<close> in absolute value).
\<close>

function nat_to_string :: "nat \<Rightarrow> string" where
  "nat_to_string n =
     (if n < 10 then [''0123456789'' ! n]
      else nat_to_string (n div 10) @ [''0123456789'' ! (n mod 10)])"
  by pat_completeness auto
termination
  by (relation "measure (\<lambda>n. n)") auto

declare nat_to_string.simps [simp del]

definition int_to_string :: "int \<Rightarrow> string" where
  "int_to_string i = (if i < 0 then CHR ''-'' # nat_to_string (nat (- i)) else nat_to_string (nat i))"

text \<open>ToPropertyKey: the string under which \<^verbatim>\<open>obj[v]\<close> looks a value up.\<close>

fun toPropertyKey :: "jsval \<Rightarrow> string" where
  "toPropertyKey JUndefined = ''undefined''"
| "toPropertyKey JNull = ''null''"
| "toPropertyKey (JBool b) = (if b then ''true'' else ''false'')"
| "toPropertyKey (JNum n) = int_to_string n"
| "toPropertyKey (JStr s) = s"

text \<open>
  The relational operators and the subtraction on scores. A comparison with NaN is false,
  a subtraction with NaN is NaN.
\<close>

definition js_ge :: "real option \<Rightarrow> real option \<Rightarrow> bool" where
  "js_ge a b = (case (a, b) of (Some x, Some y) \<Rightarrow> y \<le> x | _ \<Rightarrow> False)"

definition js_lt :: "real option \<Rightarrow> real option \<Rightarrow> bool" where
  "js_lt a b = (case (a, b) of (Some x, Some y) \<Rightarrow> x < y | _ \<Rightarrow> False)"

definition js_sub :: "real option \<Rightarrow> real option \<Rightarrow> real option" where
  "js_sub a b = (case (a, b) of (Some x, Some y) \<Rightarrow> Some (x - y) | _ \<Rightarrow> None)"

section \<open>Arrays and plain objects\<close>

text \<open>
  \<^verbatim>\<open>Array.prototype.sort(comparefn)\<close>. The language standard makes the sort stable and has
  it read a NaN from the comparator as \<open>0\<close>. For a comparator that is a consistent
  ordering the result is then determined: the stable ordering of the elements. The model
  is the insertion sort that computes it.
\<close>

definition SortCompare :: "('a \<Rightarrow> 'a \<Rightarrow> real option) \<Rightarrow> 'a \<Rightarrow> 'a \<Rightarrow> real" where
  "SortCompare comparefn a b = (case comparefn a b of None \<Rightarrow> 0 | Some v \<Rightarrow> v)"

fun sort_insert :: "('a \<Rightarrow> 'a \<Rightarrow> real option) \<Rightarrow> 'a \<Rightarrow> 'a list \<Rightarrow> 'a list" where
  "sort_insert comparefn a [] = [a]"
| "sort_insert comparefn a (b # bs) =
     (if SortCompare comparefn a b \<le> 0 then a # b # bs
      else b # sort_insert comparefn a bs)"

definition Array_sort :: "('a \<Rightarrow> 'a \<Rightarrow> real option) \<Rightarrow> 'a list \<Rightarrow> 'a list" where
  "Array_sort comparefn xs = foldr (sort_insert comparefn) xs []"

text \<open>
  \<^verbatim>\<open>arr.slice(0, end)\<close> for an integer \<open>end\<close>: a negative \<open>end\<close> counts from the end of
  the array.
\<close>

definition slice0 :: "'a list \<Rightarrow> int \<Rightarrow> 'a list" where
  "slice0 xs e =
     (if e < 0 then take (nat (max (int (length xs) + e) 0)) xs
      else take (nat (min e (int (length xs)))) xs)"

text \<open>
  A plain object created by \<^verbatim>\<open>{}\<close>: its own properties in creation order. Reading a
  property that is not its own finds the properties of \<^verbatim>\<open>Object.prototype\<close>, all of them
  functions or objects, so truthy.

  \<^verbatim>\<open>Object.entries\<close> lists integer-like keys before the others; the model lists all keys
  in creation order. Every statement below is about the mapping, not about the order of
  its keys.
\<close>

type_synonym 'v obj = "(string \<times> 'v) list"

definition Object_prototype_names :: "string list" where
  "Object_prototype_names =
     [''constructor'', ''__defineGetter__'', ''__defineSetter__'', ''hasOwnProperty'',
      ''__lookupGetter__'', ''__lookupSetter__'', ''isPrototypeOf'',
      ''propertyIsEnumerable'', ''toString'', ''valueOf'', ''__proto__'',
      ''toLocaleString'']"

text \<open>
  \<^verbatim>\<open>!!obj[key]\<close>, for an object whose own values are arrays or class instances (truthy).
\<close>

definition prop_truthy :: "'v obj \<Rightarrow> string \<Rightarrow> bool" where
  "prop_truthy ob k = (map_of ob k \<noteq> None \<or> k \<in> set Object_prototype_names)"

text \<open>\<^verbatim>\<open>bullets.forEach(f)\<close> with a callback that may throw: the first exception ends it.\<close>

fun forEach :: "('s \<Rightarrow> 'a \<Rightarrow> js_error + 's) \<Rightarrow> 's \<Rightarrow> 'a list \<Rightarrow> js_error + 's" where
  "forEach f s [] = Inr s"
| "forEach f s (x # xs) = (case f s x of Inl e \<Rightarrow> Inl e | Inr s' \<Rightarrow> forEach f s' xs)"

section \<open>class MinHeap\<close>

text \<open>
  An instance has one field, the array \<^verbatim>\<open>this.heap\<close>; the model identifies the instance
  with that array. Every method takes the array and returns the array it leaves. The
  elements are records. Every array read of the methods is in range: \<^verbatim>\<open>bubbleUp\<close> is
  called on the index of the element just pushed, \<^verbatim>\<open>sinkDown\<close> on index 0 of an array
  that is not empty, and the loops test a child index against the length before they read.
\<close>

type_synonym 'p MinHeap = "'p bullet list"

definition MinHeap_new :: "'p MinHeap" where
  "MinHeap_new = []"

function bubbleUp_loop :: "'p MinHeap \<Rightarrow> 'p bullet \<Rightarrow> nat \<Rightarrow> 'p MinHeap" where
  "bubbleUp_loop h element index =
     (if index > 0 then
        (let parentIndex = (index - 1) div 2;
             parent = h ! parentIndex
         in if js_ge (relevance_score element) (relevance_score parent) then h
            else bubbleUp_loop (h[parentIndex := element, index := parent]) element parentIndex)
      else h)"
  by pat_completeness auto
termination
  by (relation "measure (\<lambda>(h, element, index). index)") auto

declare bubbleUp_loop.simps [simp del]

definition bubbleUp :: "'p MinHeap \<Rightarrow> nat \<Rightarrow> 'p MinHeap" where
  "bubbleUp h index = bubbleUp_loop h (h ! index) index"

text \<open>\<^verbatim>\<open>insert\<close> (renamed: \<open>insert\<close> is the set operation of HOL).\<close>

definition heap_insert :: "'p MinHeap \<Rightarrow> 'p bullet \<Rightarrow> 'p MinHeap" where
  "heap_insert h bullet = (let h1 = h @ [bullet] in bubbleUp h1 (length h1 - 1))"

text \<open>
  One round of the loop of \<^verbatim>\<open>sinkDown\<close> decides which child, if any, goes up:
  \<open>None\<close> is the \<^verbatim>\<open>null\<close> of the source.
\<close>

definition sinkDown_swap :: "'p MinHeap \<Rightarrow> nat \<Rightarrow> 'p bullet \<Rightarrow> nat \<Rightarrow> nat option" where
  "sinkDown_swap h len element index =
     (let leftChildIndex = 2 * index + 1;
          rightChildIndex = 2 * index + 2;
          swap = (if leftChildIndex < len
                    \<and> js_lt (relevance_score (h ! leftChildIndex)) (relevance_score element)
                  then Some leftChildIndex else None)
      in if rightChildIndex < len
            \<and> (case swap of
                 None \<Rightarrow> js_lt (relevance_score (h ! rightChildIndex)) (relevance_score element)
               | Some s \<Rightarrow> js_lt (relevance_score (h ! rightChildIndex)) (relevance_score (h ! s)))
         then Some rightChildIndex else swap)"

lemma sinkDown_swap_bounds:
  "sinkDown_swap h len element index = Some s \<Longrightarrow> index < s \<and> s < len \<and> s \<le> 2 * index + 2"
  by (auto simp: sinkDown_swap_def Let_def split: if_splits option.splits)

function sinkDown_loop :: "'p MinHeap \<Rightarrow> nat \<Rightarrow> 'p bullet \<Rightarrow> nat \<Rightarrow> 'p MinHeap" where
  "sinkDown_loop h len element index =
     (case sinkDown_swap h len element index of
        None \<Rightarrow> h
      | Some swap \<Rightarrow> sinkDown_loop (h[index := h ! swap, swap := element]) len element swap)"
  by pat_completeness auto
termination
proof (relation "measure (\<lambda>(h, len, element, index). len - index)")
  show "wf (measure (\<lambda>(h :: 'p MinHeap, len, element, index). len - index))"
    by simp
next
  fix h :: "'p MinHeap" and len element index swap
  assume "sinkDown_swap h len element index = Some swap"
  then have "index < swap \<and> swap < len"
    using sinkDown_swap_bounds by blast
  then show "((h[index := h ! swap, swap := element], len, element, swap), (h, len, element, index))
      \<in> measure (\<lambda>(h, len, element, index). len - index)"
    by auto
qed

declare sinkDown_loop.simps [simp del]

definition sinkDown :: "'p MinHeap \<Rightarrow> nat \<Rightarrow> 'p MinHeap" where
  "sinkDown h index = sinkDown_loop h (length h) (h ! index) index"

text \<open>
  \<^verbatim>\<open>extractMin\<close> returns the record it removed (\<open>None\<close> for \<^verbatim>\<open>null\<close>) and the array
  it leaves. \<^verbatim>\<open>this.heap.pop()\<close> takes the last element off.
\<close>

definition extractMin :: "'p MinHeap \<Rightarrow> 'p bullet option \<times> 'p MinHeap" where
  "extractMin h =
     (if length h = 0 then (None, h)
      else if length h = 1 then (Some (last h), butlast h)
      else (let min = h ! 0;
                h1 = (butlast h)[0 := last h]
            in (Some min, sinkDown h1 0)))"

text \<open>\<^verbatim>\<open>this.heap[0] || null\<close>: index 0 of an empty array reads \<^verbatim>\<open>undefined\<close>.\<close>

definition peek :: "'p MinHeap \<Rightarrow> 'p bullet option" where
  "peek h = (case h of [] \<Rightarrow> None | x # _ \<Rightarrow> Some x)"

text \<open>\<^verbatim>\<open>size\<close> (renamed: \<open>size\<close> is overloaded in HOL).\<close>

definition heap_size :: "'p MinHeap \<Rightarrow> nat" where
  "heap_size h = length h"

section \<open>The two selection strategies\<close>

text \<open>The group key of a bullet: \<^verbatim>\<open>bullet.company || 'Unknown'\<close>, as a property key.\<close>

definition group_key :: "'p bullet \<Rightarrow> string" where
  "group_key bullet = toPropertyKey (js_or (company bullet) (JStr ''Unknown''))"

text \<open>\<^verbatim>\<open>bullet.relevance_score >= minScore\<close>, for a number \<open>minScore\<close>.\<close>

definition meets :: "real \<Rightarrow> 'p bullet \<Rightarrow> bool" where
  "meets minScore bullet = js_ge (relevance_score bullet) (Some minScore)"

text \<open>The comparator \<^verbatim>\<open>(a, b) => b.relevance_score - a.relevance_score\<close>.\<close>

definition compare_desc :: "'p bullet \<Rightarrow> 'p bullet \<Rightarrow> real option" where
  "compare_desc a b = js_sub (relevance_score b) (relevance_score a)"

text \<open>
  The callback of \<^verbatim>\<open>bullets.forEach\<close> in \<^verbatim>\<open>filterBulletsByCompany\<close>. When the key
  names a property of \<^verbatim>\<open>Object.prototype\<close>, \<^verbatim>\<open>companies[company]\<close> is truthy without being
  an own property, no array is created, and \<^verbatim>\<open>companies[company].push\<close> is not a function:
  the call throws a TypeError.
\<close>

definition groupStep :: "real \<Rightarrow> 'p bullet list obj \<Rightarrow> 'p bullet \<Rightarrow> js_error + 'p bullet list obj" where
  "groupStep minScore companies bullet =
     (let company' = group_key bullet;
          companies1 = (if \<not> prop_truthy companies company'
                        then AList.update company' [] companies else companies)
      in if meets minScore bullet then
           (case map_of companies1 company' of
              None \<Rightarrow> Inl TypeError
            | Some companyBullets \<Rightarrow>
                Inr (AList.update company' (companyBullets @ [bullet]) companies1))
         else Inr companies1)"

definition filterBulletsByCompany ::
    "'p bullet list \<Rightarrow> int \<Rightarrow> real \<Rightarrow> js_error + 'p bullet list obj" where
  "filterBulletsByCompany bullets topK minScore =
     (case forEach (groupStep minScore) [] bullets of
        Inl e \<Rightarrow> Inl e
      | Inr companies \<Rightarrow>
          Inr (map (\<lambda>(company', companyBullets).
                      (company', slice0 (Array_sort compare_desc companyBullets) topK))
                 companies))"

text \<open>
  The callback of \<^verbatim>\<open>bullets.forEach\<close> in \<^verbatim>\<open>filterBulletsWithHeap\<close>; here it is
  \<^verbatim>\<open>companies[company].insert\<close> that is not a function for an inherited key.
\<close>

definition heapStep ::
    "int \<Rightarrow> real \<Rightarrow> 'p MinHeap obj \<Rightarrow> 'p bullet \<Rightarrow> js_error + 'p MinHeap obj" where
  "heapStep topK minScore companies bullet =
     (let company' = group_key bullet;
          companies1 = (if \<not> prop_truthy companies company'
                        then AList.update company' MinHeap_new companies else companies)
      in if meets minScore bullet then
           (case map_of companies1 company' of
              None \<Rightarrow> Inl TypeError
            | Some heap \<Rightarrow>
                (let heap1 = heap_insert heap bullet;
                     heap2 = (if int (heap_size heap1) > topK
                              then snd (extractMin heap1) else heap1)
                 in Inr (AList.update company' heap2 companies1)))
         else Inr companies1)"

lemma length_sinkDown_loop: "length (sinkDown_loop h len element index) = length h"
  by (induction h len element index rule: sinkDown_loop.induct)
     (subst sinkDown_loop.simps, simp split: option.splits)

lemma length_extractMin:
  "h \<noteq> [] \<Longrightarrow> Suc (length (snd (extractMin h))) = length h"
  by (cases h rule: rev_cases) (simp_all add: extractMin_def sinkDown_def length_sinkDown_loop Let_def)

text \<open>
  The loop \<^verbatim>\<open>while (heap.size() > 0) arr.unshift(heap.extractMin())\<close>. \<^verbatim>\<open>extractMin\<close>
  returns \<^verbatim>\<open>null\<close> only on an empty array (\<open>extractMin_mset\<close> below), so the loop
  never meets it: the second branch of the \<open>case\<close> is dead.
\<close>

function drain :: "'p MinHeap \<Rightarrow> 'p bullet list \<Rightarrow> 'p bullet list" where
  "drain heap arr =
     (if heap_size heap > 0 then
        (case extractMin heap of
           (Some m, heap') \<Rightarrow> drain heap' (m # arr)
         | (None, heap') \<Rightarrow> arr)
      else arr)"
  by pat_completeness auto
termination
  apply (relation "measure (\<lambda>(heap, arr). length heap)")
   apply simp
  apply (simp add: heap_size_def)
  subgoal for heap x y x2
    using length_extractMin [of heap] by (cases "extractMin heap") auto
  done

declare drain.simps [simp del]

definition filterBulletsWithHeap ::
    "'p bullet list \<Rightarrow> int \<Rightarrow> real \<Rightarrow> js_error + 'p bullet list obj" where
  "filterBulletsWithHeap bullets topK minScore =
     (case forEach (heapStep topK minScore) [] bullets of
        Inl e \<Rightarrow> Inl e
      | Inr companies \<Rightarrow>
          Inr (map (\<lambda>(company', heap). (company', Array_sort compare_desc (drain heap []))) companies))"

section \<open>The same code over an explicit store\<close>

text \<open>
  The functions above take and return values. The source works on references: the input
  is an array of references to record objects, and the arrays of \<^verbatim>\<open>companies\<close> and of
  the result hold references to the same objects. To state what a call may change, the
  two selection functions are written once more over a store of cells. An address is an
  index into the store; \<^verbatim>\<open>[]\<close>, \<^verbatim>\<open>{}\<close> and \<^verbatim>\<open>new MinHeap()\<close> take a new cell at its
  end (a heap is identified with its array, as above).
\<close>

type_synonym addr = nat

datatype 'p cell = Record "'p bullet" | Array "addr list" | Dict "(string \<times> addr) list"

type_synonym 'p store = "'p cell list"

definition alloc :: "'p cell \<Rightarrow> 'p store \<Rightarrow> addr \<times> 'p store" where
  "alloc c s = (length s, s @ [c])"

text \<open>
  Reading through the store: the elements of an array, the own properties of a plain
  object, and the two properties of a record that the code reads. \<open>view\<close> keeps the
  address of the record as payload, so that a list of views stands for a list of
  references.
\<close>

definition elems :: "'p store \<Rightarrow> addr \<Rightarrow> addr list" where
  "elems s a = (case s ! a of Array xs \<Rightarrow> xs | _ \<Rightarrow> [])"

definition props :: "'p store \<Rightarrow> addr \<Rightarrow> addr obj" where
  "props s a = (case s ! a of Dict ps \<Rightarrow> ps | _ \<Rightarrow> [])"

definition view :: "'p store \<Rightarrow> addr \<Rightarrow> addr bullet" where
  "view s a =
     (case s ! a of
        Record b \<Rightarrow> \<lparr>company = company b, relevance_score = relevance_score b, payload = a\<rparr>
      | _ \<Rightarrow> \<lparr>company = JUndefined, relevance_score = None, payload = a\<rparr>)"

text \<open>
  A method that changes one array in place (\<^verbatim>\<open>sort\<close>, and the methods of a heap on
  \<^verbatim>\<open>this.heap\<close>): the cell of that array gets the references in their new arrangement.
\<close>

definition on_array :: "'p store \<Rightarrow> (addr bullet list \<Rightarrow> addr bullet list) \<Rightarrow> addr \<Rightarrow> 'p store" where
  "on_array s f a = s[a := Array (map payload (f (map (view s) (elems s a))))]"

text \<open>\<^verbatim>\<open>bullets.forEach\<close>; an exception leaves the store as it is at that moment.\<close>

fun forEach_st ::
    "(addr \<Rightarrow> 'p store \<Rightarrow> 'p store \<times> js_error option) \<Rightarrow> addr list \<Rightarrow> 'p store
       \<Rightarrow> 'p store \<times> js_error option" where
  "forEach_st f [] s = (s, None)"
| "forEach_st f (x # xs) s =
     (case f x s of (s', Some e) \<Rightarrow> (s', Some e) | (s', None) \<Rightarrow> forEach_st f xs s')"

text \<open>\<^verbatim>\<open>if (!companies[company]) companies[company] = []\<close> (or \<^verbatim>\<open>new MinHeap()\<close>).\<close>

definition create_group :: "addr \<Rightarrow> string \<Rightarrow> 'p store \<Rightarrow> 'p store" where
  "create_group companies company' s =
     (if \<not> prop_truthy (props s companies) company' then
        (case alloc (Array []) s of
           (a, s') \<Rightarrow> s'[companies := Dict (AList.update company' a (props s' companies))])
      else s)"

text \<open>The callback of \<^verbatim>\<open>filterBulletsByCompany\<close>: \<^verbatim>\<open>push\<close> writes to the array of the group.\<close>

definition groupStep_st :: "real \<Rightarrow> addr \<Rightarrow> addr \<Rightarrow> 'p store \<Rightarrow> 'p store \<times> js_error option" where
  "groupStep_st minScore companies bullet s =
     (let company' = group_key (view s bullet);
          s1 = create_group companies company' s
      in if meets minScore (view s1 bullet) then
           (case map_of (props s1 companies) company' of
              None \<Rightarrow> (s1, Some TypeError)
            | Some companyBullets \<Rightarrow>
                (s1[companyBullets := Array (elems s1 companyBullets @ [bullet])], None))
         else (s1, None))"

text \<open>
  One round of the \<^verbatim>\<open>for\<close> loop: \<^verbatim>\<open>sort\<close> rearranges the array of the group in place,
  \<^verbatim>\<open>slice\<close> makes a new array, and the assignment adds a property to \<^verbatim>\<open>result\<close>.
\<close>

definition sliceStep :: "int \<Rightarrow> addr \<Rightarrow> string \<times> addr \<Rightarrow> 'p store \<Rightarrow> 'p store" where
  "sliceStep topK result entry s =
     (case entry of
        (company', companyBullets) \<Rightarrow>
          (let s1 = on_array s (Array_sort compare_desc) companyBullets
           in case alloc (Array (slice0 (elems s1 companyBullets) topK)) s1 of
                (sliced, s2) \<Rightarrow>
                  s2[result := Dict (AList.update company' sliced (props s2 result))]))"

definition filterBulletsByCompany_st ::
    "addr \<Rightarrow> int \<Rightarrow> real \<Rightarrow> 'p store \<Rightarrow> 'p store \<times> (js_error + addr)" where
  "filterBulletsByCompany_st bullets topK minScore s =
     (case alloc (Dict []) s of
        (companies, s1) \<Rightarrow>
          (case forEach_st (groupStep_st minScore companies) (elems s1 bullets) s1 of
             (s2, Some e) \<Rightarrow> (s2, Inl e)
           | (s2, None) \<Rightarrow>
               (case alloc (Dict []) s2 of
                  (result, s3) \<Rightarrow>
                    (fold (sliceStep topK result) (props s3 companies) s3, Inr result))))"

text \<open>The callback of \<^verbatim>\<open>filterBulletsWithHeap\<close>: both methods write to the array of the heap.\<close>

definition heapStep_st ::
    "int \<Rightarrow> real \<Rightarrow> addr \<Rightarrow> addr \<Rightarrow> 'p store \<Rightarrow> 'p store \<times> js_error option" where
  "heapStep_st topK minScore companies bullet s =
     (let company' = group_key (view s bullet);
          s1 = create_group companies company' s
      in if meets minScore (view s1 bullet) then
           (case map_of (props s1 companies) company' of
              None \<Rightarrow> (s1, Some TypeError)
            | Some heap \<Rightarrow>
                (let s2 = on_array s1 (\<lambda>h. heap_insert h (view s1 bullet)) heap;
                     s3 = (if int (length (elems s2 heap)) > topK
                           then on_array s2 (\<lambda>h. snd (extractMin h)) heap else s2)
                 in (s3, None)))
         else (s1, None))"

text \<open>
  One round of the second loop: the draining loop empties the heap into the new array
  \<^verbatim>\<open>arr\<close>, \<^verbatim>\<open>sort\<close> rearranges \<^verbatim>\<open>arr\<close> in place and returns it, and the assignment puts
  that same array into \<^verbatim>\<open>result\<close>.
\<close>

definition drainStep :: "addr \<Rightarrow> string \<times> addr \<Rightarrow> 'p store \<Rightarrow> 'p store" where
  "drainStep result entry s =
     (case entry of
        (company', heap) \<Rightarrow>
          (case alloc (Array (map payload (drain (map (view s) (elems s heap)) []))) s of
             (arr, s1) \<Rightarrow>
               (let s2 = s1[heap := Array []];
                    s3 = on_array s2 (Array_sort compare_desc) arr
                in s3[result := Dict (AList.update company' arr (props s3 result))])))"

definition filterBulletsWithHeap_st ::
    "addr \<Rightarrow> int \<Rightarrow> real \<Rightarrow> 'p store \<Rightarrow> 'p store \<times> (js_error + addr)" where
  "filterBulletsWithHeap_st bullets topK minScore s =
     (case alloc (Dict []) s of
        (companies, s1) \<Rightarrow>
          (case forEach_st (heapStep_st topK minScore companies) (elems s1 bullets) s1 of
             (s2, Some e) \<Rightarrow> (s2, Inl e)
           | (s2, None) \<Rightarrow>
               (case alloc (Dict []) s2 of
                  (result, s3) \<Rightarrow>
                    (fold (drainStep result) (props s3 companies) s3, Inr result))))"

section \<open>Vocabulary of the properties\<close>

text \<open>
  A record has a numeric score when the property is there. \<open>sc\<close> reads the number; it is
  used only for records that have one.
\<close>

definition has_score :: "'p bullet \<Rightarrow> bool" where
  "has_score b = (relevance_score b \<noteq> None)"

definition sc :: "'p bullet \<Rightarrow> real" where
  "sc b = (case relevance_score b of Some x \<Rightarrow> x | None \<Rightarrow> 0)"

text \<open>The order of a binary min-heap stored in an array: no parent above its child.\<close>

definition heap_ordered :: "'p MinHeap \<Rightarrow> bool" where
  "heap_ordered h = (\<forall>i<length h. 0 < i \<longrightarrow> sc (h ! ((i - 1) div 2)) \<le> sc (h ! i))"

text \<open>
  Sequences ordered by \<^verbatim>\<open>relevance_score\<close>, with the comparison of the language: every
  earlier record \<^verbatim>\<open>>=\<close> every later one, or the other way round.
\<close>

definition non_increasing :: "'p bullet list \<Rightarrow> bool" where
  "non_increasing xs = sorted_wrt (\<lambda>a b. js_ge (relevance_score a) (relevance_score b)) xs"

definition non_decreasing :: "'p bullet list \<Rightarrow> bool" where
  "non_decreasing xs = sorted_wrt (\<lambda>a b. js_ge (relevance_score b) (relevance_score a)) xs"

text \<open>
  A sequence of \<^verbatim>\<open>insert\<close> calls on a new heap, and the records that repeated
  \<^verbatim>\<open>extractMin\<close> calls return until the heap is empty, first one first (the draining
  loop puts each one in front of the earlier ones).
\<close>

definition insert_all :: "'p bullet list \<Rightarrow> 'p MinHeap" where
  "insert_all bs = fold (\<lambda>b h. heap_insert h b) bs MinHeap_new"

definition extract_all :: "'p MinHeap \<Rightarrow> 'p bullet list" where
  "extract_all h = rev (drain h [])"

text \<open>The heaps that calls of \<^verbatim>\<open>insert\<close> and \<^verbatim>\<open>extractMin\<close> can lead to.\<close>

inductive reachable :: "'p MinHeap \<Rightarrow> bool" where
  reachable_new: "reachable MinHeap_new"
| reachable_insert: "reachable h \<Longrightarrow> reachable (heap_insert h b)"
| reachable_extractMin: "reachable h \<Longrightarrow> reachable (snd (extractMin h))"

text \<open>
  What the two functions compute, group by group: the group keys that become own
  properties of \<^verbatim>\<open>companies\<close> in creation order (a key that names a property of
  \<^verbatim>\<open>Object.prototype\<close> never does), the records of a group that meet \<open>minScore\<close>
  in input order, and the inputs on which the callback throws. \<open>gen_step\<close> is the
  common shape of the two callbacks, and \<open>heap_push\<close> what the second one does to the
  heap of a group.
\<close>

definition inherited :: "string \<Rightarrow> bool" where
  "inherited k = (k \<in> set Object_prototype_names)"

definition group_of :: "real \<Rightarrow> string \<Rightarrow> 'p bullet list \<Rightarrow> 'p bullet list" where
  "group_of minScore k bs = filter (\<lambda>b. group_key b = k \<and> meets minScore b) bs"

definition created_keys :: "'p bullet list \<Rightarrow> string list" where
  "created_keys bs = rev (remdups (rev (filter (\<lambda>k. \<not> inherited k) (map group_key bs))))"

definition throws :: "real \<Rightarrow> 'p bullet list \<Rightarrow> bool" where
  "throws minScore bs = list_ex (\<lambda>b. meets minScore b \<and> inherited (group_key b)) bs"

definition heap_push :: "int \<Rightarrow> 'p MinHeap \<Rightarrow> 'p bullet \<Rightarrow> 'p MinHeap" where
  "heap_push topK heap bullet =
     (let heap1 = heap_insert heap bullet
      in if int (heap_size heap1) > topK then snd (extractMin heap1) else heap1)"

definition gen_step ::
    "'v \<Rightarrow> ('v \<Rightarrow> 'p bullet \<Rightarrow> 'v) \<Rightarrow> real \<Rightarrow> 'v obj \<Rightarrow> 'p bullet \<Rightarrow> js_error + 'v obj" where
  "gen_step init upd minScore companies bullet =
     (let company' = group_key bullet;
          companies1 = (if \<not> prop_truthy companies company'
                        then AList.update company' init companies else companies)
      in if meets minScore bullet then
           (case map_of companies1 company' of
              None \<Rightarrow> Inl TypeError
            | Some v \<Rightarrow> Inr (AList.update company' (upd v bullet) companies1))
         else Inr companies1)"

definition step_inv ::
    "'v \<Rightarrow> ('v \<Rightarrow> 'p bullet \<Rightarrow> 'v) \<Rightarrow> real \<Rightarrow> 'p bullet list \<Rightarrow> 'v obj \<Rightarrow> bool" where
  "step_inv init upd m seen cs =
     (map fst cs = created_keys seen
      \<and> (\<forall>k\<in>set (created_keys seen). map_of cs k = Some (foldl upd init (group_of m k seen))))"

text \<open>
  \<open>T\<close> holds \<open>n\<close> highest-scoring records of \<open>M\<close> (all of \<open>M\<close> when it has fewer):
  no record left out scores above one kept.
\<close>

definition topk :: "nat \<Rightarrow> 'p bullet multiset \<Rightarrow> 'p bullet multiset \<Rightarrow> bool" where
  "topk n M T = (T \<subseteq># M \<and> size T = min n (size M) \<and> (\<forall>a\<in>#T. \<forall>b\<in>#(M - T). sc b \<le> sc a))"

text \<open>
  The \<open>(company, relevance_score)\<close> pairs of a returned mapping: every record of every
  group, under the key of its group. An outcome is the error thrown or the mapping
  returned; \<open>outcome_pairs\<close> keeps the multiset of pairs of a mapping, and
  \<open>outcome_records\<close> the multiset of whole records of each group.
\<close>

definition returned_pairs :: "'p bullet list obj \<Rightarrow> (string \<times> real option) list" where
  "returned_pairs r = concat (map (\<lambda>(k, g). map (\<lambda>b. (k, relevance_score b)) g) r)"

definition outcome_pairs ::
    "js_error + 'p bullet list obj \<Rightarrow> js_error + (string \<times> real option) multiset" where
  "outcome_pairs res = map_sum id (\<lambda>r. mset (returned_pairs r)) res"

definition outcome_records ::
    "js_error + 'p bullet list obj \<Rightarrow> js_error + (string \<times> 'p bullet multiset) list" where
  "outcome_records res = map_sum id (map (\<lambda>(k, g). (k, mset g))) res"

text \<open>
  No tie at the K-th boundary: in no group do the record in place \<open>topK\<close> and the one
  in place \<open>topK + 1\<close> of the descending order have the same score.
\<close>

definition no_boundary_tie :: "'p bullet list \<Rightarrow> int \<Rightarrow> real \<Rightarrow> bool" where
  "no_boundary_tie bs topK minScore =
     list_all (\<lambda>k. let sorted = Array_sort compare_desc (group_of minScore k bs); n = nat topK
                    in \<not> (0 < n \<and> n < length sorted
                          \<and> relevance_score (sorted ! (n - 1)) = relevance_score (sorted ! n)))
       (map group_key bs)"

text \<open>A record without a score, given a score below \<open>minScore\<close>; any other record as it is.\<close>

definition below_threshold :: "real \<Rightarrow> 'p bullet \<Rightarrow> 'p bullet" where
  "below_threshold minScore b =
     (if has_score b then b else b\<lparr>relevance_score := Some (minScore - 1)\<rparr>)"

text \<open>
  Example records: a company name and a score; the four records of the scenario; a
  record without \<^verbatim>\<open>relevance_score\<close>; one record for each falsy company.
\<close>

definition bullet_of :: "string \<Rightarrow> real \<Rightarrow> unit bullet" where
  "bullet_of c s = \<lparr>company = JStr c, relevance_score = Some s, payload = ()\<rparr>"

definition scenario :: "unit bullet list" where
  "scenario = [bullet_of ''A'' 90, bullet_of ''A'' 50, bullet_of ''A'' 70, bullet_of ''B'' 40]"

definition unscored :: "unit bullet" where
  "unscored = \<lparr>company = JStr ''A'', relevance_score = None, payload = ()\<rparr>"

definition falsy_examples :: "unit bullet list" where
  "falsy_examples =
     [\<lparr>company = JStr [], relevance_score = Some 80, payload = ()\<rparr>,
      \<lparr>company = JNum 0, relevance_score = Some 70, payload = ()\<rparr>,
      \<lparr>company = JBool False, relevance_score = Some 60, payload = ()\<rparr>,
      \<lparr>company = JNull, relevance_score = Some 50, payload = ()\<rparr>,
      \<lparr>company = JUndefined, relevance_score = Some 40, payload = ()\<rparr>]"

text \<open>
  A call leaves every cell that was in the store before it as it was. The cells a call
  adds are its own: the arrays listed in the plain object at \<open>d\<close> lie behind the old
  store, are not \<open>d\<close> itself and hold only references from \<open>I\<close>, the references of
  the input array. \<open>phase1\<close> and \<open>phase2\<close> are what holds of the store during the first
  and the second loop of either function.
\<close>

definition frame :: "'p store \<Rightarrow> 'p store \<Rightarrow> bool" where
  "frame s s' = (length s \<le> length s' \<and> (\<forall>a<length s. s' ! a = s ! a))"

definition owned :: "nat \<Rightarrow> addr set \<Rightarrow> 'p store \<Rightarrow> addr \<Rightarrow> bool" where
  "owned n0 I s d =
     (\<forall>(k, a)\<in>set (props s d). n0 \<le> a \<and> a < length s \<and> a \<noteq> d \<and> set (elems s a) \<subseteq> I)"

definition phase1 :: "'p store \<Rightarrow> addr set \<Rightarrow> addr \<Rightarrow> 'p store \<Rightarrow> bool" where
  "phase1 s0 I companies s =
     (frame s0 s \<and> length s0 \<le> companies \<and> companies < length s
      \<and> owned (length s0) I s companies)"

definition phase2 :: "'p store \<Rightarrow> addr set \<Rightarrow> addr obj \<Rightarrow> addr \<Rightarrow> 'p store \<Rightarrow> bool" where
  "phase2 s0 I entries result s =
     (frame s0 s \<and> length s0 \<le> result \<and> result < length s
      \<and> (\<forall>(k, a)\<in>set entries. length s0 \<le> a \<and> a < result \<and> set (elems s a) \<subseteq> I)
      \<and> owned (length s0) I s result)"

definition example_store :: "unit store" where
  "example_store =
     [Record (bullet_of ''A'' 90), Record (bullet_of ''A'' 50), Record (bullet_of ''A'' 70),
      Record (bullet_of ''B'' 40), Array [0, 1, 2, 3]]"

text \<open>
  Reading a plain object of the store back as a value: every key with the records its
  array refers to, as the store \<open>s0\<close> before the call shows them. \<open>sim1\<close> relates the
  store during the first loop to the \<^verbatim>\<open>companies\<close> of the functions on values;
  \<open>step_effect\<close> says what one round of the second loop does to the store, and
  \<open>sim2\<close> relates the store during that loop to the entries already handled.
\<close>

definition read_obj :: "'p store \<Rightarrow> 'p store \<Rightarrow> addr \<Rightarrow> addr bullet list obj" where
  "read_obj s0 s d = map (\<lambda>(k, a). (k, map (view s0) (elems s a))) (props s d)"

definition sim1 ::
    "'p store \<Rightarrow> addr set \<Rightarrow> addr \<Rightarrow> 'p store \<Rightarrow> addr bullet list obj \<Rightarrow> bool" where
  "sim1 s0 I companies s cs =
     (phase1 s0 I companies s \<and> distinct (map fst (props s companies))
      \<and> distinct (map snd (props s companies)) \<and> read_obj s0 s companies = cs)"

definition step_effect ::
    "(addr bullet list \<Rightarrow> addr bullet list) \<Rightarrow> 'p store \<Rightarrow> addr set \<Rightarrow> addr obj \<Rightarrow> addr
       \<Rightarrow> (string \<times> addr \<Rightarrow> 'p store \<Rightarrow> 'p store) \<Rightarrow> bool" where
  "step_effect F s0 I E result step =
     (\<forall>s k a. phase2 s0 I E result s \<and> (k, a) \<in> set E \<longrightarrow>
        (\<exists>xs ys. set xs \<subseteq> I \<and> set ys \<subseteq> I
           \<and> map (view s0) ys = F (map (view s0) (elems s a))
           \<and> step (k, a) s
               = ((s[a := Array xs]) @ [Array ys])
                   [result := Dict (AList.update k (length s) (props s result))]))"

definition sim2 ::
    "(addr bullet list \<Rightarrow> addr bullet list) \<Rightarrow> 'p store \<Rightarrow> addr set \<Rightarrow> addr obj \<Rightarrow> addr
       \<Rightarrow> 'p store \<Rightarrow> addr obj \<Rightarrow> addr obj \<Rightarrow> 'p store \<Rightarrow> bool" where
  "sim2 F s0 I E result s3 finished todo s =
     (phase2 s0 I E result s \<and> E = finished @ todo
      \<and> (\<forall>(k, a)\<in>set todo. elems s a = elems s3 a)
      \<and> read_obj s0 s result = map (\<lambda>(k, a). (k, F (map (view s0) (elems s3 a)))) finished
      \<and> (\<forall>(k, g)\<in>set (props s result). result < g \<and> g < length s))"

section \<open>The heap keeps its order\<close>

lemma js_ge_sc: "has_score a \<Longrightarrow> has_score b \<Longrightarrow> js_ge (relevance_score a) (relevance_score b) = (sc b \<le> sc a)"
  by (auto simp: has_score_def js_ge_def sc_def)

lemma js_lt_sc: "has_score a \<Longrightarrow> has_score b \<Longrightarrow> js_lt (relevance_score a) (relevance_score b) = (sc a < sc b)"
  by (auto simp: has_score_def js_lt_def sc_def)

lemma parent_less: "0 < (i::nat) \<Longrightarrow> (i - 1) div 2 < i"
  by arith

lemma length_bubbleUp_loop: "length (bubbleUp_loop h element index) = length h"
  by (induction h element index rule: bubbleUp_loop.induct)
     (subst bubbleUp_loop.simps, simp add: Let_def)

lemma mset_bubbleUp_loop:
  "index < length h \<Longrightarrow> h ! index = element \<Longrightarrow> mset (bubbleUp_loop h element index) = mset h"
proof (induction h element index rule: bubbleUp_loop.induct)
  case (1 h element index)
  show ?case
  proof (cases "0 < index \<and> \<not> js_ge (relevance_score element) (relevance_score (h ! ((index - 1) div 2)))")
    case True
    let ?p = "(index - 1) div 2"
    let ?h2 = "h[?p := element, index := h ! ?p]"
    have p: "?p < index" using True by auto
    have "mset (bubbleUp_loop ?h2 element ?p) = mset ?h2"
      using True p "1.prems" by (intro "1.IH") auto
    moreover have "mset ?h2 = mset h"
      using mset_swap [of index h ?p] p "1.prems" by simp
    ultimately show ?thesis
      using True by (subst bubbleUp_loop.simps) (simp add: Let_def)
  next
    case False
    then show ?thesis by (subst bubbleUp_loop.simps) (auto simp: Let_def)
  qed
qed

lemma bubbleUp_loop_ordered:
  assumes "index < length h" and "h ! index = element" and "\<forall>b\<in>set h. has_score b"
    and "\<forall>j<length h. 0 < j \<longrightarrow> j \<noteq> index \<longrightarrow> sc (h ! ((j - 1) div 2)) \<le> sc (h ! j)"
    and "\<forall>j<length h. 0 < j \<longrightarrow> (j - 1) div 2 = index \<longrightarrow> 0 < index
           \<longrightarrow> sc (h ! ((index - 1) div 2)) \<le> sc (h ! j)"
  shows "heap_ordered (bubbleUp_loop h element index)"
  using assms
proof (induction h element index rule: bubbleUp_loop.induct)
  case (1 h element index)
  let ?p = "(index - 1) div 2"
  have sco: "has_score element" using "1.prems" by (metis nth_mem)
  show ?case
  proof (cases "0 < index")
    case False
    then show ?thesis using "1.prems"
      by (subst bubbleUp_loop.simps) (simp add: heap_ordered_def)
  next
    case pos: True
    then have p: "?p < index" by auto
    have scp: "has_score (h ! ?p)" using "1.prems" p by simp
    show ?thesis
    proof (cases "js_ge (relevance_score element) (relevance_score (h ! ?p))")
      case True
      then have "sc (h ! ?p) \<le> sc (h ! index)"
        using js_ge_sc [OF sco scp] "1.prems" by simp
      then have "heap_ordered h"
        using "1.prems" unfolding heap_ordered_def by metis
      then show ?thesis using True pos
        by (subst bubbleUp_loop.simps) (simp add: Let_def)
    next
      case False
      then have lt: "sc element < sc (h ! ?p)"
        using js_ge_sc [OF sco scp] by simp
      let ?h2 = "h[?p := element, index := h ! ?p]"
      have len: "length ?h2 = length h" by simp
      have a1: "?p < length ?h2" using p "1.prems" by simp
      have a2: "?h2 ! ?p = element" using p "1.prems" by simp
      have a3: "\<forall>b\<in>set ?h2. has_score b"
        using "1.prems" sco scp by (auto dest!: set_update_subset_insert [THEN subsetD])
      have a4: "\<forall>j<length ?h2. 0 < j \<longrightarrow> j \<noteq> ?p \<longrightarrow> sc (?h2 ! ((j - 1) div 2)) \<le> sc (?h2 ! j)"
      proof (intro allI impI)
        fix j assume j: "j < length ?h2" "0 < j" "j \<noteq> ?p"
        show "sc (?h2 ! ((j - 1) div 2)) \<le> sc (?h2 ! j)"
        proof (cases "j = index")
          case True
          then show ?thesis using lt p "1.prems" by simp
        next
          case ji: False
          have hj: "?h2 ! j = h ! j" using ji j by simp
          have old: "sc (h ! ((j - 1) div 2)) \<le> sc (h ! j)" using "1.prems"(4) j ji by simp
          consider "(j - 1) div 2 = index" | "(j - 1) div 2 = ?p" | "(j - 1) div 2 \<noteq> index" "(j - 1) div 2 \<noteq> ?p"
            by blast
          then show ?thesis
          proof cases
            case 1
            then have "sc (h ! ?p) \<le> sc (h ! j)" using "1.prems"(5) j pos by simp
            then show ?thesis using 1 hj p "1.prems"(1) by simp
          next
            case 2
            then show ?thesis using hj old lt p "1.prems"(1) by simp
          next
            case 3
            then show ?thesis using hj old by simp
          qed
        qed
      qed
      have a5: "\<forall>j<length ?h2. 0 < j \<longrightarrow> (j - 1) div 2 = ?p \<longrightarrow> 0 < ?p
           \<longrightarrow> sc (?h2 ! ((?p - 1) div 2)) \<le> sc (?h2 ! j)"
      proof (intro allI impI)
        fix j assume j: "j < length ?h2" "0 < j" "(j - 1) div 2 = ?p" "0 < ?p"
        have pp: "(?p - 1) div 2 < ?p" using j(4) by (rule parent_less)
        have gp: "?h2 ! ((?p - 1) div 2) = h ! ((?p - 1) div 2)" using pp p by simp
        have up: "sc (h ! ((?p - 1) div 2)) \<le> sc (h ! ?p)"
          using "1.prems"(4) p j "1.prems"(1) by simp
        show "sc (?h2 ! ((?p - 1) div 2)) \<le> sc (?h2 ! j)"
        proof (cases "j = index")
          case True
          then show ?thesis using gp up "1.prems"(1) by simp
        next
          case False
          moreover have "j \<noteq> ?p" using parent_less [OF j(2)] j(3) by simp
          ultimately have "?h2 ! j = h ! j" by simp
          moreover have "sc (h ! ?p) \<le> sc (h ! j)" using "1.prems"(4) j False by auto
          ultimately show ?thesis using gp up by simp
        qed
      qed
      have "heap_ordered (bubbleUp_loop ?h2 element ?p)"
        using pos False a1 a2 a3 a4 a5 by (intro "1.IH") auto
      then show ?thesis using pos False
        by (subst bubbleUp_loop.simps) (simp add: Let_def)
    qed
  qed
qed

lemma heap_insert_ordered:
  assumes "heap_ordered h" and "\<forall>x\<in>set h. has_score x" and "has_score b"
  shows "heap_ordered (heap_insert h b)"
proof -
  let ?h1 = "h @ [b]"
  have "heap_ordered (bubbleUp_loop ?h1 (?h1 ! length h) (length h))"
  proof (rule bubbleUp_loop_ordered)
    show "\<forall>x\<in>set ?h1. has_score x" using assms by auto
    show "\<forall>j<length ?h1. 0 < j \<longrightarrow> j \<noteq> length h \<longrightarrow> sc (?h1 ! ((j - 1) div 2)) \<le> sc (?h1 ! j)"
    proof (intro allI impI)
      fix j assume j: "j < length ?h1" "0 < j" "j \<noteq> length h"
      then have "j < length h" by simp
      moreover have "(j - 1) div 2 < length h" using parent_less [OF j(2)] \<open>j < length h\<close> by simp
      ultimately show "sc (?h1 ! ((j - 1) div 2)) \<le> sc (?h1 ! j)"
        using assms(1) j(2) by (simp add: nth_append heap_ordered_def)
    qed
    show "\<forall>j<length ?h1. 0 < j \<longrightarrow> (j - 1) div 2 = length h \<longrightarrow> 0 < length h
            \<longrightarrow> sc (?h1 ! ((length h - 1) div 2)) \<le> sc (?h1 ! j)"
      using parent_less by fastforce
  qed simp_all
  then show ?thesis by (simp add: heap_insert_def bubbleUp_def Let_def)
qed

lemma mset_heap_insert: "mset (heap_insert h b) = add_mset b (mset h)"
  using mset_bubbleUp_loop [of "length h" "h @ [b]" b]
  by (simp add: heap_insert_def bubbleUp_def Let_def)

lemma length_heap_insert: "length (heap_insert h b) = Suc (length h)"
  by (simp add: heap_insert_def bubbleUp_def Let_def length_bubbleUp_loop)

lemma set_heap_insert: "set (heap_insert h b) = Set.insert b (set h)"
  using mset_heap_insert [of h b] by (metis set_mset_add_mset_insert set_mset_mset)

lemma child_iff: "0 < (j::nat) \<Longrightarrow> ((j - 1) div 2 = i) = (j = 2 * i + 1 \<or> j = 2 * i + 2)"
  by arith

lemma sinkDown_swap_None:
  assumes "sinkDown_swap h len element index = None" and "has_score element"
    and "\<forall>j<len. has_score (h ! j)" and "c < len" and "c = 2 * index + 1 \<or> c = 2 * index + 2"
  shows "sc element \<le> sc (h ! c)"
  using assms
  by (auto simp: sinkDown_swap_def Let_def js_lt_sc split: if_splits option.splits)

lemma sinkDown_swap_Some:
  assumes "sinkDown_swap h len element index = Some s" and "has_score element"
    and "\<forall>j<len. has_score (h ! j)"
  shows "(s = 2 * index + 1 \<or> s = 2 * index + 2) \<and> s < len \<and> sc (h ! s) < sc element
    \<and> (\<forall>c<len. c = 2 * index + 1 \<or> c = 2 * index + 2 \<longrightarrow> sc (h ! s) \<le> sc (h ! c))"
  using assms
  by (auto simp: sinkDown_swap_def Let_def js_lt_sc split: if_splits option.splits)

lemma mset_sinkDown_loop:
  "index < len \<Longrightarrow> len = length h \<Longrightarrow> h ! index = element
     \<Longrightarrow> mset (sinkDown_loop h len element index) = mset h"
proof (induction h len element index rule: sinkDown_loop.induct)
  case (1 h len element index)
  show ?case
  proof (cases "sinkDown_swap h len element index")
    case None
    then show ?thesis by (subst sinkDown_loop.simps) simp
  next
    case (Some s)
    then have s: "index < s" "s < len" using sinkDown_swap_bounds by blast+
    let ?h2 = "h[index := h ! s, s := element]"
    have "mset (sinkDown_loop ?h2 len element s) = mset ?h2"
      using Some s "1.prems" by (intro "1.IH") auto
    moreover have "mset ?h2 = mset h"
      using mset_swap [of s h index] s "1.prems" by simp
    ultimately show ?thesis using Some by (subst sinkDown_loop.simps) simp
  qed
qed

lemma sinkDown_loop_ordered:
  assumes "index < len" and "len = length h" and "h ! index = element"
    and "\<forall>b\<in>set h. has_score b"
    and "\<forall>j<len. 0 < j \<longrightarrow> (j - 1) div 2 \<noteq> index \<longrightarrow> sc (h ! ((j - 1) div 2)) \<le> sc (h ! j)"
    and "\<forall>j<len. 0 < j \<longrightarrow> (j - 1) div 2 = index \<longrightarrow> 0 < index
           \<longrightarrow> sc (h ! ((index - 1) div 2)) \<le> sc (h ! j)"
  shows "heap_ordered (sinkDown_loop h len element index)"
  using assms
proof (induction h len element index rule: sinkDown_loop.induct)
  case (1 h len element index)
  have sco: "has_score element" using "1.prems" by (metis nth_mem)
  have scall: "\<forall>j<len. has_score (h ! j)" using "1.prems" by simp
  show ?case
  proof (cases "sinkDown_swap h len element index")
    case None
    have "heap_ordered h"
      unfolding heap_ordered_def
    proof (intro allI impI)
      fix j assume j: "j < length h" "0 < j"
      show "sc (h ! ((j - 1) div 2)) \<le> sc (h ! j)"
      proof (cases "(j - 1) div 2 = index")
        case True
        then have "j = 2 * index + 1 \<or> j = 2 * index + 2" using child_iff [OF j(2), of index] by simp
        then have "sc element \<le> sc (h ! j)"
          using sinkDown_swap_None [OF None sco scall] j "1.prems"(2) by simp
        then show ?thesis using True "1.prems"(3) by simp
      next
        case False
        then show ?thesis using "1.prems"(5) j "1.prems"(2) by simp
      qed
    qed
    then show ?thesis using None by (subst sinkDown_loop.simps) simp
  next
    case (Some s)
    note sw = sinkDown_swap_Some [OF Some sco scall]
    have s: "index < s" "s < len" using sinkDown_swap_bounds [OF Some] by simp_all
    have ps: "(s - 1) div 2 = index" using sw by auto
    let ?h2 = "h[index := h ! s, s := element]"
    have len: "length ?h2 = length h" by simp
    have a3: "?h2 ! s = element" using s "1.prems" by simp
    have a4: "\<forall>b\<in>set ?h2. has_score b"
      using "1.prems" sco scall s by (auto dest!: set_update_subset_insert [THEN subsetD])
    have a5: "\<forall>j<len. 0 < j \<longrightarrow> (j - 1) div 2 \<noteq> s \<longrightarrow> sc (?h2 ! ((j - 1) div 2)) \<le> sc (?h2 ! j)"
    proof (intro allI impI)
      fix j assume j: "j < len" "0 < j" "(j - 1) div 2 \<noteq> s"
      consider "j = index" | "j = s" | "j \<noteq> index" "j \<noteq> s" "(j - 1) div 2 = index"
        | "j \<noteq> index" "j \<noteq> s" "(j - 1) div 2 \<noteq> index" by blast
      then show "sc (?h2 ! ((j - 1) div 2)) \<le> sc (?h2 ! j)"
      proof cases
        case 1
        have pi: "(index - 1) div 2 < index" using j 1 parent_less by simp
        have "sc (h ! ((index - 1) div 2)) \<le> sc (h ! s)"
          using "1.prems"(6) s ps j 1 by simp
        moreover have "?h2 ! ((index - 1) div 2) = h ! ((index - 1) div 2)"
          using pi s by simp
        moreover have "?h2 ! index = h ! s" using s "1.prems" by simp
        ultimately show ?thesis using 1 by simp
      next
        case 2
        have "?h2 ! index = h ! s" using s "1.prems" by simp
        then show ?thesis using 2 ps a3 sw by simp
      next
        case 3
        have "j = 2 * index + 1 \<or> j = 2 * index + 2" using child_iff [OF j(2), of index] 3 by simp
        then have "sc (h ! s) \<le> sc (h ! j)" using sw j(1) by blast
        moreover have "?h2 ! index = h ! s" using s "1.prems" by simp
        moreover have "?h2 ! j = h ! j" using 3 by simp
        ultimately show ?thesis using 3 by simp
      next
        case 4
        have "?h2 ! j = h ! j" using 4 by simp
        moreover have "?h2 ! ((j - 1) div 2) = h ! ((j - 1) div 2)" using 4 j by simp
        moreover have "sc (h ! ((j - 1) div 2)) \<le> sc (h ! j)" using "1.prems"(5) j 4 by simp
        ultimately show ?thesis by simp
      qed
    qed
    have a6: "\<forall>j<len. 0 < j \<longrightarrow> (j - 1) div 2 = s \<longrightarrow> 0 < s
           \<longrightarrow> sc (?h2 ! ((s - 1) div 2)) \<le> sc (?h2 ! j)"
    proof (intro allI impI)
      fix j assume j: "j < len" "0 < j" "(j - 1) div 2 = s" "0 < s"
      have js: "s < j" using parent_less [OF j(2)] j(3) by simp
      then have "?h2 ! j = h ! j" using s by simp
      moreover have "?h2 ! index = h ! s" using s "1.prems" by simp
      moreover have "sc (h ! s) \<le> sc (h ! j)" using "1.prems"(5) j s by auto
      ultimately show "sc (?h2 ! ((s - 1) div 2)) \<le> sc (?h2 ! j)" using ps by simp
    qed
    have "heap_ordered (sinkDown_loop ?h2 len element s)"
      using Some s(2) "1.prems"(2) a3 a4 a5 a6 by (intro "1.IH") auto
    then show ?thesis using Some by (subst sinkDown_loop.simps) simp
  qed
qed

lemma heap_root_min:
  "heap_ordered h \<Longrightarrow> j < length h \<Longrightarrow> sc (h ! 0) \<le> sc (h ! j)"
proof (induction j rule: less_induct)
  case (less j)
  show ?case
  proof (cases "j = 0")
    case True
    then show ?thesis by simp
  next
    case False
    then have p: "(j - 1) div 2 < j" using parent_less by simp
    then have "sc (h ! 0) \<le> sc (h ! ((j - 1) div 2))" using less by simp
    moreover have "sc (h ! ((j - 1) div 2)) \<le> sc (h ! j)"
      using less.prems False by (simp add: heap_ordered_def)
    ultimately show ?thesis by simp
  qed
qed

lemma extractMin_empty: "extractMin [] = (None, [])"
  by (simp add: extractMin_def)

lemma extractMin_mset:
  assumes "h \<noteq> []"
  shows "fst (extractMin h) = Some (h ! 0) \<and> mset h = add_mset (h ! 0) (mset (snd (extractMin h)))"
proof (cases h)
  case Nil
  then show ?thesis using assms by simp
next
  case (Cons x xs)
  show ?thesis
  proof (cases "xs = []")
    case True
    then show ?thesis using Cons by (simp add: extractMin_def)
  next
    case False
    let ?h1 = "(butlast h)[0 := last h]"
    have h1: "?h1 = last xs # butlast xs" using Cons False by simp
    have "mset (sinkDown ?h1 0) = mset ?h1"
      unfolding sinkDown_def by (rule mset_sinkDown_loop) (simp_all add: h1)
    moreover have "mset ?h1 = mset xs"
      using False unfolding h1 by (metis append_butlast_last_id mset.simps(2) mset_append union_mset_add_mset_right add.right_neutral mset.simps(1) union_commute)
    ultimately show ?thesis using Cons False
      by (simp add: extractMin_def Let_def)
  qed
qed

lemma extractMin_ordered:
  assumes "heap_ordered h" and "\<forall>b\<in>set h. has_score b"
  shows "heap_ordered (snd (extractMin h))"
proof (cases "length h \<le> 1")
  case True
  then have "length (snd (extractMin h)) = 0"
    by (cases h) (auto simp: extractMin_def)
  then show ?thesis by (simp add: heap_ordered_def)
next
  case False
  let ?h1 = "(butlast h)[0 := last h]"
  have len: "length ?h1 = length h - 1" by simp
  have sc1: "\<forall>b\<in>set ?h1. has_score b"
  proof
    fix b assume "b \<in> set ?h1"
    then have "b = last h \<or> b \<in> set (butlast h)"
      using set_update_subset_insert [of "butlast h" 0 "last h"] by auto
    moreover have "last h \<in> set h" using False by (cases h) auto
    ultimately show "has_score b" using assms(2) by (auto dest: in_set_butlastD)
  qed
  have "heap_ordered (sinkDown_loop ?h1 (length ?h1) (?h1 ! 0) 0)"
  proof (rule sinkDown_loop_ordered)
    show "0 < length ?h1" using False by simp
    show "\<forall>j<length ?h1. 0 < j \<longrightarrow> (j - 1) div 2 \<noteq> 0
             \<longrightarrow> sc (?h1 ! ((j - 1) div 2)) \<le> sc (?h1 ! j)"
    proof (intro allI impI)
      fix j assume j: "j < length ?h1" "0 < j" "(j - 1) div 2 \<noteq> 0"
      have p: "(j - 1) div 2 < j" using j parent_less by simp
      have "?h1 ! j = h ! j" using j by (simp add: nth_butlast)
      moreover have "?h1 ! ((j - 1) div 2) = h ! ((j - 1) div 2)"
        using j p by (simp add: nth_butlast)
      moreover have "sc (h ! ((j - 1) div 2)) \<le> sc (h ! j)"
        using assms(1) j by (simp add: heap_ordered_def)
      ultimately show "sc (?h1 ! ((j - 1) div 2)) \<le> sc (?h1 ! j)" by simp
    qed
  qed (use sc1 in simp_all)
  moreover have "h \<noteq> []" using False by auto
  ultimately show ?thesis using False
    by (simp add: extractMin_def sinkDown_def Let_def)
qed

lemma extractMin_min:
  assumes "heap_ordered h" and "x \<in> set h"
  shows "sc (h ! 0) \<le> sc x"
  using assms heap_root_min by (metis in_set_conv_nth)

section \<open>Sorting, slicing and draining\<close>

lemma non_increasing_sc:
  "\<forall>b\<in>set xs. has_score b \<Longrightarrow> non_increasing xs = sorted_wrt (\<lambda>a b. sc b \<le> sc a) xs"
  unfolding non_increasing_def
  by (rule iffI; erule sorted_wrt_mono_rel [rotated]) (simp_all add: js_ge_sc)

lemma SortCompare_desc:
  "has_score a \<Longrightarrow> has_score b \<Longrightarrow> (SortCompare compare_desc a b \<le> 0) = (sc b \<le> sc a)"
  by (auto simp: SortCompare_def compare_desc_def js_sub_def has_score_def sc_def)

lemma mset_sort_insert: "mset (sort_insert c a bs) = add_mset a (mset bs)"
  by (induction bs) auto

lemma mset_Array_sort: "mset (Array_sort c xs) = mset xs"
  by (induction xs) (auto simp: Array_sort_def mset_sort_insert)

lemma set_Array_sort: "set (Array_sort c xs) = set xs"
  using mset_Array_sort [of c xs] by (metis set_mset_mset)

lemma length_Array_sort: "length (Array_sort c xs) = length xs"
  using mset_Array_sort [of c xs] by (metis size_mset)

lemma set_sort_insert: "set (sort_insert c a bs) = Set.insert a (set bs)"
  using mset_sort_insert [of c a bs] by (metis set_mset_add_mset_insert set_mset_mset)

lemma sorted_sort_insert:
  "has_score a \<Longrightarrow> \<forall>b\<in>set bs. has_score b \<Longrightarrow> sorted_wrt (\<lambda>a b. sc b \<le> sc a) bs
     \<Longrightarrow> sorted_wrt (\<lambda>a b. sc b \<le> sc a) (sort_insert compare_desc a bs)"
proof (induction bs)
  case Nil
  then show ?case by simp
next
  case (Cons b bs)
  show ?case
  proof (cases "sc b \<le> sc a")
    case True
    then show ?thesis using Cons.prems by (auto simp: SortCompare_desc)
  next
    case False
    then show ?thesis using Cons by (auto simp: SortCompare_desc set_sort_insert)
  qed
qed

lemma Array_sort_sorted:
  "\<forall>b\<in>set xs. has_score b \<Longrightarrow> sorted_wrt (\<lambda>a b. sc b \<le> sc a) (Array_sort compare_desc xs)"
proof (induction xs)
  case Nil
  then show ?case by (simp add: Array_sort_def)
next
  case (Cons x xs)
  then have "sorted_wrt (\<lambda>a b. sc b \<le> sc a) (Array_sort compare_desc xs)" by simp
  moreover have "\<forall>b\<in>set (Array_sort compare_desc xs). has_score b"
    using Cons.prems by (simp add: set_Array_sort)
  ultimately have "sorted_wrt (\<lambda>a b. sc b \<le> sc a)
      (sort_insert compare_desc x (Array_sort compare_desc xs))"
    using Cons.prems by (intro sorted_sort_insert) simp_all
  then show ?case by (simp add: Array_sort_def)
qed

lemma Array_sort_non_increasing:
  "\<forall>b\<in>set xs. has_score b \<Longrightarrow> non_increasing (Array_sort compare_desc xs)"
  by (simp add: non_increasing_sc set_Array_sort Array_sort_sorted)

lemma slice0_take: "\<exists>n. slice0 xs e = take n xs"
  by (auto simp: slice0_def)

lemma slice0_nonneg: "0 \<le> e \<Longrightarrow> slice0 xs e = take (nat e) xs"
  by (simp add: slice0_def min_def)

lemma non_increasing_slice0: "non_increasing xs \<Longrightarrow> non_increasing (slice0 xs e)"
  using slice0_take [of xs e] by (auto simp: non_increasing_def sorted_wrt_take)

lemma set_slice0: "set (slice0 xs e) \<subseteq> set xs"
  using slice0_take [of xs e] by (auto dest: in_set_takeD)

lemma mset_slice0: "mset (slice0 xs e) \<subseteq># mset xs"
  using slice0_take [of xs e] by (metis append_take_drop_id mset_append mset_subset_eq_add_left)

lemma length_slice0: "0 \<le> e \<Longrightarrow> int (length (slice0 xs e)) \<le> e"
  by (simp add: slice0_nonneg)

text \<open>The draining loop.\<close>

lemma drain_spec:
  assumes "heap_ordered h" and "\<forall>b\<in>set h. has_score b" and "\<forall>b\<in>set arr. has_score b"
    and "\<forall>a\<in>set arr. \<forall>x\<in>set h. sc a \<le> sc x" and "sorted_wrt (\<lambda>a b. sc b \<le> sc a) arr"
  shows "sorted_wrt (\<lambda>a b. sc b \<le> sc a) (drain h arr) \<and> mset (drain h arr) = mset h + mset arr"
  using assms
proof (induction h arr rule: drain.induct)
  case (1 heap arr)
  show ?case
  proof (cases "heap = []")
    case True
    then show ?thesis using "1.prems" by (subst (1 2) drain.simps) (simp add: heap_size_def)
  next
    case False
    obtain m heap' where ex: "extractMin heap = (m, heap')" by (cases "extractMin heap")
    have m: "m = Some (heap ! 0)" and ms: "mset heap = add_mset (heap ! 0) (mset heap')"
      using extractMin_mset [OF False] ex by simp_all
    have sub: "set heap' \<subseteq> set heap" and m0: "heap ! 0 \<in> set heap"
      using ms by (metis set_mset_mset set_mset_add_mset_insert subset_insertI,
                   metis set_mset_mset union_single_eq_member)
    have ord: "heap_ordered heap'" using extractMin_ordered [OF "1.prems"(1,2)] ex by simp
    have pos: "0 < heap_size heap" using False by (simp add: heap_size_def)
    have minx: "\<forall>x\<in>set heap. sc (heap ! 0) \<le> sc x"
      using extractMin_min [OF "1.prems"(1)] by blast
    have "sorted_wrt (\<lambda>a b. sc b \<le> sc a) (drain heap' (heap ! 0 # arr))
        \<and> mset (drain heap' (heap ! 0 # arr)) = mset heap' + mset (heap ! 0 # arr)"
    proof (rule "1.IH" [OF pos ex [symmetric] m])
      show "heap_ordered heap'" by (rule ord)
      show "\<forall>b\<in>set heap'. has_score b" using sub "1.prems"(2) by blast
      show "\<forall>b\<in>set (heap ! 0 # arr). has_score b" using m0 "1.prems"(2,3) by simp
      show "\<forall>a\<in>set (heap ! 0 # arr). \<forall>x\<in>set heap'. sc a \<le> sc x"
        using minx sub "1.prems"(4) by auto
      show "sorted_wrt (\<lambda>a b. sc b \<le> sc a) (heap ! 0 # arr)"
        using "1.prems"(4,5) m0 by auto
    qed
    then show ?thesis using False ex m ms
      by (subst (1 2) drain.simps) (simp add: heap_size_def)
  qed
qed

lemma mset_drain: "mset (drain h arr) = mset h + mset arr"
proof (induction h arr rule: drain.induct)
  case (1 heap arr)
  show ?case
  proof (cases "heap = []")
    case True
    then show ?thesis by (subst drain.simps) (simp add: heap_size_def)
  next
    case False
    obtain m heap' where ex: "extractMin heap = (m, heap')" by (cases "extractMin heap")
    have m: "m = Some (heap ! 0)" and ms: "mset heap = add_mset (heap ! 0) (mset heap')"
      using extractMin_mset [OF False] ex by simp_all
    have "mset (drain heap' (heap ! 0 # arr)) = mset heap' + mset (heap ! 0 # arr)"
      using False by (intro "1.IH" [OF _ ex [symmetric] m]) (simp add: heap_size_def)
    then show ?thesis using False ex m ms
      by (subst drain.simps) (simp add: heap_size_def)
  qed
qed

section \<open>What the two strategies compute\<close>

lemma groupStep_gen: "groupStep = gen_step [] (\<lambda>v b. v @ [b])"
  by (intro ext) (simp add: groupStep_def gen_step_def)

lemma heapStep_gen: "heapStep topK = gen_step MinHeap_new (heap_push topK)"
  by (intro ext) (auto simp: heapStep_def gen_step_def heap_push_def Let_def split: option.splits)

lemma created_keys_Nil: "created_keys [] = []"
  by (simp add: created_keys_def)

lemma created_keys_snoc:
  "created_keys (seen @ [b]) =
     (if inherited (group_key b) \<or> group_key b \<in> set (created_keys seen) then created_keys seen
      else created_keys seen @ [group_key b])"
  by (simp add: created_keys_def)

lemma set_created_keys: "set (created_keys bs) = {k \<in> group_key ` set bs. \<not> inherited k}"
  by (auto simp: created_keys_def)

lemma distinct_created_keys: "distinct (created_keys bs)"
  by (simp add: created_keys_def)

lemma group_of_snoc:
  "group_of m k (seen @ [b]) =
     (if group_key b = k \<and> meets m b then group_of m k seen @ [b] else group_of m k seen)"
  by (simp add: group_of_def)

lemma group_of_absent: "k \<notin> group_key ` set seen \<Longrightarrow> group_of m k seen = []"
  by (auto simp: group_of_def filter_empty_conv)

lemma map_of_None_keys: "(map_of al k = None) = (k \<notin> set (map fst al))"
  by (simp add: map_of_eq_None_iff)

lemma gen_step_throws:
  assumes "step_inv init upd m seen cs" and "meets m b" and "inherited (group_key b)"
  shows "gen_step init upd m cs b = Inl TypeError"
proof -
  have "group_key b \<notin> set (map fst cs)"
    using assms by (simp add: step_inv_def set_created_keys)
  then have "map_of cs (group_key b) = None" by (simp add: map_of_None_keys)
  then show ?thesis using assms
    by (simp add: gen_step_def prop_truthy_def inherited_def)
qed

lemma gen_step_returns:
  assumes "step_inv init upd m seen cs" and "\<not> (meets m b \<and> inherited (group_key b))"
  shows "\<exists>cs'. gen_step init upd m cs b = Inr cs' \<and> step_inv init upd m (seen @ [b]) cs'"
proof -
  let ?k = "group_key b"
  have keys: "map fst cs = created_keys seen"
    and vals: "\<forall>k\<in>set (created_keys seen). map_of cs k = Some (foldl upd init (group_of m k seen))"
    using assms(1) by (simp_all add: step_inv_def)
  show ?thesis
  proof (cases "inherited ?k")
    case True
    then have "\<not> meets m b" using assms(2) by simp
    then have "gen_step init upd m cs b = Inr cs"
      using True by (simp add: gen_step_def prop_truthy_def inherited_def)
    moreover have "step_inv init upd m (seen @ [b]) cs"
      using True \<open>\<not> meets m b\<close> keys vals
      by (simp add: step_inv_def created_keys_snoc group_of_snoc)
    ultimately show ?thesis by blast
  next
    case notinh: False
    show ?thesis
    proof (cases "?k \<in> set (created_keys seen)")
      case True
      then have own: "map_of cs ?k = Some (foldl upd init (group_of m ?k seen))"
        using vals by simp
      then have pt: "prop_truthy cs ?k" by (simp add: prop_truthy_def)
      show ?thesis
      proof (cases "meets m b")
        case False
        then have "gen_step init upd m cs b = Inr cs"
          using pt by (simp add: gen_step_def)
        moreover have "step_inv init upd m (seen @ [b]) cs"
          using True False keys vals
          by (simp add: step_inv_def created_keys_snoc group_of_snoc)
        ultimately show ?thesis by blast
      next
        case mt: True
        let ?c = "AList.update ?k (upd (foldl upd init (group_of m ?k seen)) b) cs"
        have "gen_step init upd m cs b = Inr ?c"
          using pt own mt by (simp add: gen_step_def Let_def)
        moreover have "step_inv init upd m (seen @ [b]) ?c"
          using True mt keys vals
          by (auto simp: step_inv_def created_keys_snoc group_of_snoc update_keys update_conv')
        ultimately show ?thesis by blast
      qed
    next
      case new: False
      then have none: "map_of cs ?k = None" using keys by (simp add: map_of_None_keys)
      then have pt: "\<not> prop_truthy cs ?k"
        using notinh by (simp add: prop_truthy_def inherited_def)
      have absent: "?k \<notin> group_key ` set seen"
        using new notinh by (simp add: set_created_keys)
      let ?c1 = "AList.update ?k init cs"
      have k1: "map fst ?c1 = created_keys (seen @ [b])"
        using new notinh keys by (simp add: update_keys created_keys_snoc)
      show ?thesis
      proof (cases "meets m b")
        case False
        then have "gen_step init upd m cs b = Inr ?c1"
          using pt by (simp add: gen_step_def)
        moreover have "step_inv init upd m (seen @ [b]) ?c1"
          using new notinh False k1 vals absent
          by (auto simp: step_inv_def created_keys_snoc group_of_snoc update_conv' group_of_absent)
        ultimately show ?thesis by blast
      next
        case mt: True
        let ?c = "AList.update ?k (upd init b) ?c1"
        have "gen_step init upd m cs b = Inr ?c"
          using pt mt by (simp add: gen_step_def update_conv')
        moreover have "step_inv init upd m (seen @ [b]) ?c"
          using new notinh mt keys vals absent
          by (auto simp: step_inv_def created_keys_snoc group_of_snoc update_keys update_conv' group_of_absent)
        ultimately show ?thesis by blast
      qed
    qed
  qed
qed

lemma throws_Cons: "throws m (b # bs) = ((meets m b \<and> inherited (group_key b)) \<or> throws m bs)"
  by (simp add: throws_def)

lemma forEach_gen_step:
  assumes "step_inv init upd m seen cs"
  shows "(throws m xs \<longrightarrow> forEach (gen_step init upd m) cs xs = Inl TypeError)
       \<and> (\<not> throws m xs \<longrightarrow>
            (\<exists>cs'. forEach (gen_step init upd m) cs xs = Inr cs'
               \<and> step_inv init upd m (seen @ xs) cs'))"
  using assms
proof (induction xs arbitrary: seen cs)
  case Nil
  then show ?case by (simp add: throws_def)
next
  case (Cons b xs)
  show ?case
  proof (cases "meets m b \<and> inherited (group_key b)")
    case True
    then show ?thesis using gen_step_throws [OF Cons.prems] by (simp add: throws_Cons)
  next
    case False
    then obtain cs' where c: "gen_step init upd m cs b = Inr cs'"
        "step_inv init upd m (seen @ [b]) cs'"
      using gen_step_returns [OF Cons.prems] by blast
    have "throws m (b # xs) = throws m xs" using False by (auto simp: throws_Cons)
    moreover have "forEach (gen_step init upd m) cs (b # xs) = forEach (gen_step init upd m) cs' xs"
      using c(1) by simp
    ultimately show ?thesis using Cons.IH [OF c(2)] by simp
  qed
qed

lemma alist_by_keys:
  "distinct (map fst al) \<Longrightarrow> \<forall>k\<in>set (map fst al). map_of al k = Some (f k)
     \<Longrightarrow> al = map (\<lambda>k. (k, f k)) (map fst al)"
proof (induction al)
  case Nil
  then show ?case by simp
next
  case (Cons p al)
  obtain k v where p: "p = (k, v)" by (cases p)
  have "\<forall>k'\<in>set (map fst al). map_of al k' = Some (f k')"
  proof
    fix k' assume k': "k' \<in> set (map fst al)"
    then have "k' \<noteq> k" using Cons.prems(1) p by auto
    then show "map_of al k' = Some (f k')" using Cons.prems(2) k' p by auto
  qed
  then have "al = map (\<lambda>k. (k, f k)) (map fst al)" using Cons by simp
  moreover have "v = f k" using Cons.prems(2) p by simp
  ultimately show ?case using p by simp
qed

lemma forEach_gen_step_result:
  "forEach (gen_step init upd m) [] bs =
     (if throws m bs then Inl TypeError
      else Inr (map (\<lambda>k. (k, foldl upd init (group_of m k bs))) (created_keys bs)))"
proof -
  have inv0: "step_inv init upd m [] []"
    by (simp add: step_inv_def created_keys_Nil)
  show ?thesis
  proof (cases "throws m bs")
    case True
    then show ?thesis using forEach_gen_step [OF inv0, of bs] by simp
  next
    case False
    then obtain cs' where c: "forEach (gen_step init upd m) [] bs = Inr cs'"
        "step_inv init upd m bs cs'"
      using forEach_gen_step [OF inv0, of bs] by auto
    have "cs' = map (\<lambda>k. (k, foldl upd init (group_of m k bs))) (map fst cs')"
      using c(2) by (intro alist_by_keys) (simp_all add: step_inv_def distinct_created_keys)
    moreover have "map fst cs' = created_keys bs" using c(2) by (simp add: step_inv_def)
    ultimately have "cs' = map (\<lambda>k. (k, foldl upd init (group_of m k bs))) (created_keys bs)"
      by metis
    then show ?thesis using c(1) False by simp
  qed
qed

lemma foldl_snoc_id: "foldl (\<lambda>v b. v @ [b]) acc xs = acc @ xs"
  by (induction xs arbitrary: acc) simp_all

lemma filterBulletsByCompany_eq:
  "filterBulletsByCompany bs topK m =
     (if throws m bs then Inl TypeError
      else Inr (map (\<lambda>k. (k, slice0 (Array_sort compare_desc (group_of m k bs)) topK))
                  (created_keys bs)))"
  by (simp add: filterBulletsByCompany_def groupStep_gen forEach_gen_step_result
      foldl_snoc_id comp_def)

lemma filterBulletsWithHeap_eq:
  "filterBulletsWithHeap bs topK m =
     (if throws m bs then Inl TypeError
      else Inr (map (\<lambda>k. (k, Array_sort compare_desc
                               (drain (foldl (heap_push topK) MinHeap_new (group_of m k bs)) [])))
                  (created_keys bs)))"
  by (simp add: filterBulletsWithHeap_def heapStep_gen forEach_gen_step_result comp_def)

section \<open>The bounded heap holds the highest scores\<close>

lemma sub_size_eq: "(A::'a multiset) \<subseteq># B \<Longrightarrow> size A = size B \<Longrightarrow> A = B"
  using mset_subset_size [of A B] by (cases "A = B") (auto simp: subset_mset.less_le)

lemma topk_empty: "topk n {#} {#}"
  by (simp add: topk_def)

lemma topk_keep:
  assumes "topk n M T" and "size T < n"
  shows "topk n (add_mset x M) (add_mset x T)"
proof -
  have "size T = size M" using assms by (auto simp: topk_def min_def split: if_splits)
  then have "T = M" using assms(1) by (intro sub_size_eq) (simp_all add: topk_def)
  then show ?thesis using assms(2) by (simp add: topk_def)
qed

lemma topk_evict:
  assumes "topk n M T" and "size T = n" and "m \<in># add_mset x T"
    and "\<forall>a\<in>#add_mset x T. sc m \<le> sc a"
  shows "topk n (add_mset x M) (add_mset x T - {#m#})"
proof -
  let ?T' = "add_mset x T - {#m#}"
  have sub: "T \<subseteq># M" and sz: "size T = min n (size M)"
    and top: "\<forall>a\<in>#T. \<forall>b\<in>#(M - T). sc b \<le> sc a"
    using assms(1) by (simp_all add: topk_def)
  have s1: "?T' \<subseteq># add_mset x M"
    using sub by (meson diff_subset_eq_self mset_subset_eq_add_mset_cancel subset_mset.order_trans)
  have "size ?T' = size T" using assms(3) by (simp add: size_Diff_singleton)
  moreover have "n \<le> size M" using sz assms(2) by simp
  ultimately have s2: "size ?T' = min n (size (add_mset x M))" using assms(2) by simp
  have rest: "add_mset x M - ?T' = add_mset m (M - T)"
  proof -
    have "add_mset x M - ?T' = add_mset x M - add_mset x T + {#m#}"
      using assms(3) by (metis add_mset_add_single diff_diff_add_mset
          mset_subset_eq_add_mset_cancel mset_subset_eq_single multi_member_split
          sub subset_mset.diff_add_assoc2 add_mset_remove_trivial
          subset_mset.add_diff_assoc2 subset_mset.diff_diff_right)
    then show ?thesis by simp
  qed
  have s3: "\<forall>a\<in>#?T'. \<forall>b\<in>#(add_mset x M - ?T'). sc b \<le> sc a"
  proof (intro ballI)
    fix a b assume a: "a \<in># ?T'" and b: "b \<in># add_mset x M - ?T'"
    have a': "a \<in># add_mset x T" using a by (meson in_diffD)
    then have ma: "sc m \<le> sc a" using assms(4) by blast
    from b rest have "b = m \<or> b \<in># M - T" by auto
    then show "sc b \<le> sc a"
    proof
      assume "b = m" then show ?thesis using ma by simp
    next
      assume bb: "b \<in># M - T"
      show ?thesis
      proof (cases "a \<in># T")
        case True
        then show ?thesis using top bb by blast
      next
        case False
        then have ax: "a = x" using a' by auto
        have "m \<noteq> x \<or> x \<in># T"
          using a ax False by (metis add_mset_remove_trivial)
        then have "m \<in># T" using assms(3) False ax by auto
        then have "sc b \<le> sc m" using top bb by blast
        then show ?thesis using ma by simp
      qed
    qed
  qed
  show ?thesis using s1 s2 s3 by (simp add: topk_def)
qed

lemma topk_unique_scores:
  assumes "topk n M T1" and "topk n M T2"
  shows "image_mset sc T1 = image_mset sc T2"
proof (rule ccontr)
  let ?S1 = "image_mset sc T1" and ?S2 = "image_mset sc T2" and ?MS = "image_mset sc M"
  assume ne: "?S1 \<noteq> ?S2"
  have sub: "?S1 \<subseteq># ?MS" "?S2 \<subseteq># ?MS"
    using assms by (simp_all add: topk_def image_mset_subseteq_mono)
  have sz: "size ?S1 = size ?S2" using assms by (simp add: topk_def)
  have rest: "?MS - ?S1 = image_mset sc (M - T1)" "?MS - ?S2 = image_mset sc (M - T2)"
    using assms by (simp_all add: topk_def image_mset_Diff)
  have top1: "\<forall>a\<in>#?S1. \<forall>b\<in>#(?MS - ?S1). b \<le> a"
    using assms(1) unfolding rest by (auto simp: topk_def)
  have top2: "\<forall>a\<in>#?S2. \<forall>b\<in>#(?MS - ?S2). b \<le> a"
    using assms(2) unfolding rest by (auto simp: topk_def)
  have "\<not> ?S1 \<subseteq># ?S2" using ne sz sub_size_eq by blast
  then obtain a where a: "count ?S2 a < count ?S1 a"
    by (meson mset_subset_eqI not_le_imp_less)
  have "\<not> ?S2 \<subseteq># ?S1" using ne sz sub_size_eq [of ?S2 ?S1] by auto
  then obtain b where b: "count ?S1 b < count ?S2 b"
    by (meson mset_subset_eqI not_le_imp_less)
  have a1: "a \<in># ?S1" using a by (metis count_greater_zero_iff not_less_zero gr_zeroI)
  have b2: "b \<in># ?S2" using b by (metis count_greater_zero_iff not_less_zero gr_zeroI)
  have "count ?S1 a \<le> count ?MS a" using sub(1) by (simp add: mset_subset_eq_count)
  then have a2: "a \<in># ?MS - ?S2" using a by (simp add: in_diff_count)
  have "count ?S2 b \<le> count ?MS b" using sub(2) by (simp add: mset_subset_eq_count)
  then have b1: "b \<in># ?MS - ?S1" using b by (simp add: in_diff_count)
  have "b \<le> a" using top1 a1 b1 by blast
  moreover have "a \<le> b" using top2 b2 a2 by blast
  ultimately have "a = b" by simp
  then show False using a b by simp
qed

lemma topk_take:
  assumes "sorted_wrt (\<lambda>a b. sc b \<le> sc a) xs"
  shows "topk n (mset xs) (mset (take n xs))"
proof -
  have split: "mset xs = mset (take n xs) + mset (drop n xs)"
    by (metis append_take_drop_id mset_append)
  then have rest: "mset xs - mset (take n xs) = mset (drop n xs)" by simp
  have "sorted_wrt (\<lambda>a b. sc b \<le> sc a) (take n xs @ drop n xs)" using assms by simp
  then have "\<forall>a\<in>set (take n xs). \<forall>b\<in>set (drop n xs). sc b \<le> sc a"
    unfolding sorted_wrt_append by blast
  moreover have "mset (take n xs) \<subseteq># mset xs"
    using split by (metis mset_subset_eq_add_left)
  ultimately show ?thesis unfolding topk_def rest by simp
qed

lemma heap_push_inv:
  assumes "heap_ordered h" and "\<forall>b\<in>set h. has_score b" and "has_score x"
    and "topk (nat topK) M (mset h)"
  shows "heap_ordered (heap_push topK h x) \<and> (\<forall>b\<in>set (heap_push topK h x). has_score b)
       \<and> topk (nat topK) (add_mset x M) (mset (heap_push topK h x))"
proof -
  let ?h1 = "heap_insert h x"
  have o1: "heap_ordered ?h1" using assms by (simp add: heap_insert_ordered)
  have s1: "\<forall>b\<in>set ?h1. has_score b" using assms by (simp add: set_heap_insert)
  have m1: "mset ?h1 = add_mset x (mset h)" by (rule mset_heap_insert)
  have l1: "length ?h1 = Suc (length h)" by (rule length_heap_insert)
  have le: "length h \<le> nat topK" using assms(4) by (simp add: topk_def)
  show ?thesis
  proof (cases "int (heap_size ?h1) > topK")
    case False
    then have lt: "size (mset h) < nat topK" using l1 by (simp add: heap_size_def)
    have "heap_push topK h x = ?h1" using False by (simp add: heap_push_def)
    then show ?thesis using o1 s1 m1 topk_keep [OF assms(4) lt] by simp
  next
    case True
    then have eq: "size (mset h) = nat topK" using l1 le by (simp add: heap_size_def)
    let ?h2 = "snd (extractMin ?h1)"
    have ne: "?h1 \<noteq> []" using l1 by auto
    have ms: "mset ?h1 = add_mset (?h1 ! 0) (mset ?h2)"
      using extractMin_mset [OF ne] by simp
    then have m2: "mset ?h2 = add_mset x (mset h) - {#?h1 ! 0#}"
      using m1 by (metis add_mset_remove_trivial)
    have mem: "?h1 ! 0 \<in># add_mset x (mset h)"
      using ms m1 by (metis union_single_eq_member)
    have mn: "\<forall>a\<in>#add_mset x (mset h). sc (?h1 ! 0) \<le> sc a"
      using extractMin_min [OF o1] m1 by (metis set_mset_mset)
    have sub: "set ?h2 \<subseteq> set ?h1"
      using ms by (metis set_mset_mset set_mset_add_mset_insert subset_insertI)
    have "heap_push topK h x = ?h2" using True by (simp add: heap_push_def Let_def)
    moreover have "heap_ordered ?h2" using extractMin_ordered [OF o1 s1] .
    moreover have "\<forall>b\<in>set ?h2. has_score b" using sub s1 by blast
    moreover have "topk (nat topK) (add_mset x M) (mset ?h2)"
      unfolding m2 using topk_evict [OF assms(4) eq mem mn] .
    ultimately show ?thesis by simp
  qed
qed

lemma meets_has_score: "meets m b \<Longrightarrow> has_score b"
  by (auto simp: meets_def js_ge_def has_score_def split: option.splits)

lemma foldl_heap_push_inv:
  assumes "heap_ordered h" and "\<forall>b\<in>set h. has_score b" and "\<forall>b\<in>set xs. has_score b"
    and "topk (nat topK) M (mset h)"
  shows "heap_ordered (foldl (heap_push topK) h xs)
       \<and> (\<forall>b\<in>set (foldl (heap_push topK) h xs). has_score b)
       \<and> topk (nat topK) (M + mset xs) (mset (foldl (heap_push topK) h xs))"
  using assms
proof (induction xs arbitrary: h M)
  case Nil
  then show ?case by simp
next
  case (Cons x xs)
  have step: "heap_ordered (heap_push topK h x) \<and> (\<forall>b\<in>set (heap_push topK h x). has_score b)
       \<and> topk (nat topK) (add_mset x M) (mset (heap_push topK h x))"
    using Cons.prems by (intro heap_push_inv) simp_all
  show ?case
    using Cons.IH [of "heap_push topK h x" "add_mset x M"] step Cons.prems(3) by simp
qed

lemma group_heap:
  "heap_ordered (foldl (heap_push topK) MinHeap_new (group_of m k bs))
   \<and> (\<forall>b\<in>set (foldl (heap_push topK) MinHeap_new (group_of m k bs)). has_score b)
   \<and> topk (nat topK) (mset (group_of m k bs))
        (mset (foldl (heap_push topK) MinHeap_new (group_of m k bs)))"
proof -
  have "\<forall>b\<in>set (group_of m k bs). has_score b"
    by (auto simp: group_of_def meets_has_score)
  then show ?thesis
    using foldl_heap_push_inv [of "[]" "group_of m k bs" topK "{#}"]
    by (simp add: MinHeap_new_def heap_ordered_def topk_empty)
qed

section \<open>The returned mapping, group by group\<close>

lemma group_of_scored: "\<forall>b\<in>set (group_of m k bs). has_score b"
  by (auto simp: group_of_def meets_has_score)

lemma sorted_group_topk:
  "topk n (mset (group_of m k bs)) (mset (take n (Array_sort compare_desc (group_of m k bs))))"
  using topk_take [OF Array_sort_sorted [OF group_of_scored], of n m k bs]
  by (simp add: mset_Array_sort)

lemma has_score_sc: "has_score b \<Longrightarrow> relevance_score b = Some (sc b)"
  by (auto simp: has_score_def sc_def)

lemma pairs_by_sc:
  "\<forall>b\<in>set zs. has_score b
     \<Longrightarrow> mset (map (\<lambda>b. (k, relevance_score b)) zs)
       = image_mset (\<lambda>s. (k, Some s)) (image_mset sc (mset zs))"
  by (induction zs) (simp_all add: has_score_sc)

lemma scores_by_sc:
  assumes "\<forall>b\<in>set xs. has_score b" and "\<forall>b\<in>set ys. has_score b"
    and "image_mset sc (mset xs) = image_mset sc (mset ys)"
  shows "mset (map (\<lambda>b. (k, relevance_score b)) xs) = mset (map (\<lambda>b. (k, relevance_score b)) ys)"
  using pairs_by_sc [OF assms(1), of k] pairs_by_sc [OF assms(2), of k] assms(3) by simp

lemma group_pairs_agree:
  assumes "0 \<le> topK"
  shows "mset (map (\<lambda>b. (k, relevance_score b))
            (slice0 (Array_sort compare_desc (group_of m k bs)) topK))
       = mset (map (\<lambda>b. (k, relevance_score b))
            (Array_sort compare_desc (drain (foldl (heap_push topK) MinHeap_new (group_of m k bs)) [])))"
proof -
  let ?g = "group_of m k bs"
  let ?a = "slice0 (Array_sort compare_desc ?g) topK"
  let ?h = "foldl (heap_push topK) MinHeap_new ?g"
  let ?b = "Array_sort compare_desc (drain ?h [])"
  have a: "?a = take (nat topK) (Array_sort compare_desc ?g)"
    using assms by (rule slice0_nonneg)
  have mb: "mset ?b = mset ?h" by (simp add: mset_Array_sort mset_drain)
  have ta: "topk (nat topK) (mset ?g) (mset ?a)" unfolding a by (rule sorted_group_topk)
  have tb: "topk (nat topK) (mset ?g) (mset ?b)" unfolding mb using group_heap by blast
  have sa: "\<forall>b\<in>set ?a. has_score b"
    using group_of_scored [of m k bs] set_slice0 [of "Array_sort compare_desc ?g" topK]
    by (auto simp: set_Array_sort)
  have sb: "\<forall>b\<in>set ?b. has_score b"
    using group_heap [of topK m k bs] mb by (metis set_mset_mset)
  show ?thesis using scores_by_sc [OF sa sb topk_unique_scores [OF ta tb]] .
qed

lemma pairs_agree:
  assumes "\<forall>k\<in>set ks. mset (map (\<lambda>b. (k, relevance_score b)) (f k))
                       = mset (map (\<lambda>b. (k, relevance_score b)) (g k))"
  shows "mset (returned_pairs (map (\<lambda>k. (k, f k)) ks)) = mset (returned_pairs (map (\<lambda>k. (k, g k)) ks))"
  using assms by (induction ks) (simp_all add: returned_pairs_def)

lemma topk_unique_records:
  assumes "sorted_wrt (\<lambda>a b. sc b \<le> sc a) xs" and "topk n (mset xs) T"
    and "\<not> (0 < n \<and> n < length xs \<and> sc (xs ! (n - 1)) = sc (xs ! n))"
  shows "mset (take n xs) = T"
proof (rule ccontr)
  let ?T1 = "mset (take n xs)" and ?M = "mset xs"
  assume ne: "?T1 \<noteq> T"
  have t1: "topk n ?M ?T1" using assms(1) by (rule topk_take)
  have rest1: "?M - ?T1 = mset (drop n xs)"
    by (metis add_diff_cancel_left' append_take_drop_id mset_append)
  have sz: "size ?T1 = size T" using t1 assms(2) by (simp add: topk_def)
  have sub: "?T1 \<subseteq># ?M" "T \<subseteq># ?M" using t1 assms(2) by (simp_all add: topk_def)
  have "\<not> ?T1 \<subseteq># T" using ne sz sub_size_eq by blast
  then obtain a where a: "count T a < count ?T1 a"
    by (meson mset_subset_eqI not_le_imp_less)
  have "\<not> T \<subseteq># ?T1" using ne sz sub_size_eq [of T ?T1] by auto
  then obtain b where b: "count ?T1 b < count T b"
    by (meson mset_subset_eqI not_le_imp_less)
  have a1: "a \<in># ?T1" using a by (metis count_greater_zero_iff not_less_zero gr_zeroI)
  have b2: "b \<in># T" using b by (metis count_greater_zero_iff not_less_zero gr_zeroI)
  have "count ?T1 a \<le> count ?M a" using sub(1) by (simp add: mset_subset_eq_count)
  then have a2: "a \<in># ?M - T" using a by (simp add: in_diff_count)
  have "count T b \<le> count ?M b" using sub(2) by (simp add: mset_subset_eq_count)
  then have b1: "b \<in># ?M - ?T1" using b by (simp add: in_diff_count)
  have "sc b \<le> sc a" using t1 a1 b1 unfolding topk_def by blast
  moreover have "sc a \<le> sc b" using assms(2) b2 a2 unfolding topk_def by blast
  ultimately have eq: "sc a = sc b" by simp
  have ain: "a \<in> set (take n xs)" using a1 by simp
  have bin: "b \<in> set (drop n xs)" using b1 rest1 by simp
  have n0: "0 < n" using ain by (cases n) auto
  have nl: "n < length xs" using bin by (cases "n < length xs") auto
  obtain i where i: "i < n" "i < length xs" "xs ! i = a"
    using ain by (auto simp: in_set_conv_nth)
  obtain j where j: "j < length xs - n" "xs ! (n + j) = b"
    using bin by (auto simp: in_set_conv_nth)
  have le: "\<And>p q. p \<le> q \<Longrightarrow> q < length xs \<Longrightarrow> sc (xs ! q) \<le> sc (xs ! p)"
  proof -
    fix p q :: nat assume "p \<le> q" "q < length xs"
    then show "sc (xs ! q) \<le> sc (xs ! p)"
      using assms(1) by (cases "p = q") (auto simp: sorted_wrt_iff_nth_less)
  qed
  have "sc (xs ! (n - 1)) \<le> sc a" using le [of i "n - 1"] i n0 nl by simp
  moreover have "sc b \<le> sc (xs ! n)" using le [of n "n + j"] j by simp
  moreover have "sc (xs ! n) \<le> sc (xs ! (n - 1))" using le [of "n - 1" n] nl by simp
  ultimately have "sc (xs ! (n - 1)) = sc (xs ! n)" using eq by simp
  then show False using assms(3) n0 nl by simp
qed

lemma returns_A:
  "filterBulletsByCompany bs topK m = Inr r
     \<Longrightarrow> r = map (\<lambda>k. (k, slice0 (Array_sort compare_desc (group_of m k bs)) topK))
               (created_keys bs)"
  by (simp add: filterBulletsByCompany_eq split: if_splits)

lemma returns_B:
  "filterBulletsWithHeap bs topK m = Inr r
     \<Longrightarrow> r = map (\<lambda>k. (k, Array_sort compare_desc
                          (drain (foldl (heap_push topK) MinHeap_new (group_of m k bs)) [])))
               (created_keys bs)"
  by (simp add: filterBulletsWithHeap_eq split: if_splits)

lemma entry_A:
  assumes "filterBulletsByCompany bs topK m = Inr r" and "(k, g) \<in> set r"
  shows "g = slice0 (Array_sort compare_desc (group_of m k bs)) topK \<and> k \<in> set (created_keys bs)"
  using assms(2) unfolding returns_A [OF assms(1)] by auto

lemma entry_B:
  assumes "filterBulletsWithHeap bs topK m = Inr r" and "(k, g) \<in> set r"
  shows "g = Array_sort compare_desc (drain (foldl (heap_push topK) MinHeap_new (group_of m k bs)) [])
       \<and> k \<in> set (created_keys bs)"
  using assms(2) unfolding returns_B [OF assms(1)] by auto

lemma mset_group_A:
  "mset (slice0 (Array_sort compare_desc (group_of m k bs)) topK) \<subseteq># mset (group_of m k bs)"
  using mset_slice0 [of "Array_sort compare_desc (group_of m k bs)" topK]
  by (simp add: mset_Array_sort)

lemma mset_group_B:
  "mset (Array_sort compare_desc (drain (foldl (heap_push topK) MinHeap_new (group_of m k bs)) []))
     \<subseteq># mset (group_of m k bs)"
  using group_heap [of topK m k bs] by (simp add: mset_Array_sort mset_drain topk_def)

lemma length_group_B:
  "length (Array_sort compare_desc (drain (foldl (heap_push topK) MinHeap_new (group_of m k bs)) []))
     \<le> nat topK"
proof -
  have "size (mset (foldl (heap_push topK) MinHeap_new (group_of m k bs))) \<le> nat topK"
    using group_heap [of topK m k bs] by (simp add: topk_def)
  then show ?thesis
    by (metis length_Array_sort mset_drain mset.simps(1) add.right_neutral size_mset)
qed

lemma entry_sub:
  assumes "filterBulletsByCompany bs topK m = Inr r \<or> filterBulletsWithHeap bs topK m = Inr r"
    and "(k, g) \<in> set r"
  shows "mset g \<subseteq># mset (group_of m k bs) \<and> k \<in> set (created_keys bs)"
  using assms entry_A [of bs topK m r k g] entry_B [of bs topK m r k g] mset_group_A mset_group_B
  by auto

lemma group_of_facts: "b \<in> set (group_of m k bs) \<Longrightarrow> b \<in> set bs \<and> group_key b = k \<and> meets m b"
  by (simp add: group_of_def)

lemma entry_members:
  assumes "filterBulletsByCompany bs topK m = Inr r \<or> filterBulletsWithHeap bs topK m = Inr r"
    and "(k, g) \<in> set r" and "b \<in> set g"
  shows "b \<in> set bs \<and> group_key b = k \<and> meets m b"
proof -
  have "b \<in># mset (group_of m k bs)"
    using entry_sub [OF assms(1,2)] assms(3) by (meson in_multiset_in_set mset_subset_eqD)
  then show ?thesis using group_of_facts by (metis in_multiset_in_set)
qed

lemma nat_to_string_nonempty: "nat_to_string n \<noteq> []"
  by (subst nat_to_string.simps) simp

lemma group_key_nonempty: "group_key b \<noteq> []"
  by (cases "company b")
     (auto simp: group_key_def js_or_def int_to_string_def nat_to_string_nonempty)

lemma group_key_falsy: "\<not> truthy (company b) \<Longrightarrow> group_key b = ''Unknown''"
  by (simp add: group_key_def js_or_def)

lemma Unknown_not_inherited: "\<not> inherited ''Unknown''"
  by (simp add: inherited_def Object_prototype_names_def)

lemma keys_of_result:
  assumes "filterBulletsByCompany bs topK m = Inr r \<or> filterBulletsWithHeap bs topK m = Inr r"
  shows "map fst r = created_keys bs"
  using assms
proof
  assume a: "filterBulletsByCompany bs topK m = Inr r"
  show ?thesis unfolding returns_A [OF a] by (simp add: comp_def)
next
  assume b: "filterBulletsWithHeap bs topK m = Inr r"
  show ?thesis unfolding returns_B [OF b] by (simp add: comp_def)
qed

lemma group_keys_present:
  assumes "filterBulletsByCompany bs topK m = Inr r \<or> filterBulletsWithHeap bs topK m = Inr r"
  shows "fst ` set r = {k \<in> group_key ` set bs. \<not> inherited k}"
  using keys_of_result [OF assms] set_created_keys [of bs] by (metis set_map)

lemma tie_free_group:
  assumes "no_boundary_tie bs topK m" and "k \<in> set (created_keys bs)" and "0 \<le> topK"
  shows "mset (slice0 (Array_sort compare_desc (group_of m k bs)) topK)
       = mset (Array_sort compare_desc (drain (foldl (heap_push topK) MinHeap_new (group_of m k bs)) []))"
proof -
  let ?g = "group_of m k bs"
  let ?s = "Array_sort compare_desc ?g"
  let ?h = "foldl (heap_push topK) MinHeap_new ?g"
  let ?n = "nat topK"
  have "k \<in> set (map group_key bs)" using assms(2) by (auto simp: set_created_keys)
  then have nt: "\<not> (0 < ?n \<and> ?n < length ?s
      \<and> relevance_score (?s ! (?n - 1)) = relevance_score (?s ! ?n))"
    using assms(1) unfolding no_boundary_tie_def list_all_iff Let_def by blast
  have sc_s: "\<forall>b\<in>set ?s. has_score b" using group_of_scored [of m k bs] by (simp add: set_Array_sort)
  have nt': "\<not> (0 < ?n \<and> ?n < length ?s \<and> sc (?s ! (?n - 1)) = sc (?s ! ?n))"
  proof
    assume t: "0 < ?n \<and> ?n < length ?s \<and> sc (?s ! (?n - 1)) = sc (?s ! ?n)"
    then have "?s ! (?n - 1) \<in> set ?s" "?s ! ?n \<in> set ?s"
      by (simp_all add: less_imp_diff_less)
    then have "has_score (?s ! (?n - 1))" "has_score (?s ! ?n)" using sc_s by blast+
    then have "relevance_score (?s ! (?n - 1)) = relevance_score (?s ! ?n)"
      using t by (simp add: has_score_sc)
    then show False using nt t by simp
  qed
  have srt: "sorted_wrt (\<lambda>a b. sc b \<le> sc a) ?s"
    using group_of_scored by (rule Array_sort_sorted)
  have "topk ?n (mset ?s) (mset ?h)" using group_heap [of topK m k bs] by (simp add: mset_Array_sort)
  then have "mset (take ?n ?s) = mset ?h" using srt nt' by (intro topk_unique_records)
  then show ?thesis using assms(3) by (simp add: slice0_nonneg mset_Array_sort mset_drain)
qed

lemma below_threshold_props:
  "group_key (below_threshold m b) = group_key b"
  "meets m (below_threshold m b) = meets m b"
  by (auto simp: below_threshold_def group_key_def meets_def js_ge_def has_score_def)

lemma created_keys_below: "created_keys (map (below_threshold m) bs) = created_keys bs"
  by (simp add: created_keys_def comp_def below_threshold_props)

lemma throws_below: "throws m (map (below_threshold m) bs) = throws m bs"
  by (simp add: throws_def list_ex_iff below_threshold_props)

lemma group_of_below: "group_of m k (map (below_threshold m) bs) = group_of m k bs"
proof -
  have "group_of m k (map (below_threshold m) bs) = map (below_threshold m) (group_of m k bs)"
    by (simp add: group_of_def filter_map comp_def below_threshold_props)
  also have "\<dots> = group_of m k bs"
    using group_of_scored [of m k bs] by (intro map_idI) (simp add: below_threshold_def)
  finally show ?thesis .
qed

lemma records_verbatim:
  assumes "filterBulletsByCompany bs topK minScore = Inr r
           \<or> filterBulletsWithHeap bs topK minScore = Inr r"
    and "(k, g) \<in> set r"
  shows "mset g \<subseteq># mset bs"
proof -
  have "mset (group_of minScore k bs) \<subseteq># mset bs"
    by (simp add: group_of_def)
  then show ?thesis using entry_sub [OF assms] by (meson subset_mset.order_trans)
qed

text \<open>
  What a group of a returned mapping keeps of the qualifying records of its key, for
  \<open>topK \<ge> 0\<close>: a top-\<open>topK\<close> selection of them, in either strategy. A selection that
  leaves a record out is full, and holds no score below the score of that record.
\<close>

lemma topk_all: "topk n M T \<Longrightarrow> size M \<le> n \<Longrightarrow> T = M"
  by (simp add: topk_def sub_size_eq)

lemma topk_cut:
  assumes "topk n M T" and "b \<in># M" and "b \<notin># T"
  shows "size T = n \<and> (\<forall>x\<in>#T. sc b \<le> sc x)"
proof -
  have sub: "T \<subseteq># M" and sz: "size T = min n (size M)"
    and top: "\<forall>a\<in>#T. \<forall>b\<in>#(M - T). sc b \<le> sc a"
    using assms(1) by (simp_all add: topk_def)
  have "count (M - T) b = count M b" using assms(3) by (simp add: not_in_iff)
  then have b: "b \<in># M - T" using assms(2) by (metis count_greater_zero_iff)
  have "T \<noteq> M" using assms(2,3) by auto
  then have "size T < size M" using sub sub_size_eq [of T M] size_mset_mono [of T M] by linarith
  then have "size T = n" using sz by simp
  then show ?thesis using top b by blast
qed

lemma entry_topk:
  assumes "filterBulletsByCompany bs topK m = Inr r \<or> filterBulletsWithHeap bs topK m = Inr r"
    and "(k, g) \<in> set r" and "0 \<le> topK"
  shows "topk (nat topK) (mset (group_of m k bs)) (mset g)"
  using assms(1)
proof
  assume "filterBulletsByCompany bs topK m = Inr r"
  then have "g = slice0 (Array_sort compare_desc (group_of m k bs)) topK"
    using entry_A assms(2) by blast
  then show ?thesis using sorted_group_topk [of "nat topK" m k bs] assms(3)
    by (simp add: slice0_nonneg)
next
  assume "filterBulletsWithHeap bs topK m = Inr r"
  then have "g = Array_sort compare_desc (drain (foldl (heap_push topK) MinHeap_new (group_of m k bs)) [])"
    using entry_B assms(2) by blast
  then show ?thesis using group_heap [of topK m k bs]
    by (simp add: mset_Array_sort mset_drain)
qed

lemma throws_scored:
  "throws m bs \<Longrightarrow> \<exists>b\<in>set bs. has_score b \<and> meets m b \<and> inherited (group_key b)"
  using meets_has_score by (auto simp: throws_def list_ex_iff)

lemma throws_outcome:
  "(filterBulletsByCompany bs topK m = Inl e \<or> filterBulletsWithHeap bs topK m = Inl e) \<Longrightarrow> throws m bs"
  by (auto simp: filterBulletsByCompany_eq filterBulletsWithHeap_eq split: if_splits)

section \<open>What a call writes to\<close>

lemma frame_refl: "frame s s"
  by (simp add: frame_def)

lemma frame_write: "frame s0 s \<Longrightarrow> length s0 \<le> a \<Longrightarrow> frame s0 (s[a := c])"
  by (simp add: frame_def)

lemma frame_alloc: "frame s0 s \<Longrightarrow> frame s0 (s @ [c])"
  by (simp add: frame_def nth_append)

lemma elems_write_same: "a < length s \<Longrightarrow> elems (s[a := Array xs]) a = xs"
  by (simp add: elems_def)

lemma elems_write_Dict: "a < length s \<Longrightarrow> elems (s[a := Dict ps]) a = []"
  by (simp add: elems_def)

lemma elems_write_other: "b \<noteq> a \<Longrightarrow> elems (s[a := c]) b = elems s b"
  by (simp add: elems_def)

lemma props_write_same: "a < length s \<Longrightarrow> props (s[a := Dict ps]) a = ps"
  by (simp add: props_def)

lemma props_write_Array: "a < length s \<Longrightarrow> props (s[a := Array xs]) a = []"
  by (simp add: props_def)

lemma props_write_other: "b \<noteq> a \<Longrightarrow> props (s[a := c]) b = props s b"
  by (simp add: props_def)

lemma elems_alloc_old: "a < length s \<Longrightarrow> elems (s @ [c]) a = elems s a"
  by (simp add: elems_def nth_append)

lemma props_alloc_old: "a < length s \<Longrightarrow> props (s @ [c]) a = props s a"
  by (simp add: props_def nth_append)

lemma elems_alloc_new: "elems (s @ [Array xs]) (length s) = xs"
  by (simp add: elems_def)

lemma props_alloc_new: "props (s @ [Dict ps]) (length s) = ps"
  by (simp add: props_def)

lemma set_alist_update: "set (AList.update k v al) \<subseteq> Set.insert (k, v) (set al)"
  by (induction al) auto

lemma payload_view: "payload (view s a) = a"
  by (simp add: view_def split: cell.splits)

lemma map_payload_view: "map payload (map (view s) xs) = xs"
  by (simp add: comp_def payload_view)

lemma owned_write_array:
  assumes "owned n0 I s d" and "set xs \<subseteq> I"
  shows "owned n0 I (s[a := Array xs]) d"
proof (cases "a < length s")
  case False
  then show ?thesis using assms(1) by (simp add: list_update_beyond)
next
  case True
  show ?thesis
  proof (cases "d = a")
    case True
    then show ?thesis using \<open>a < length s\<close> by (simp add: owned_def props_write_Array)
  next
    case False
    have "set (elems (s[a := Array xs]) b) \<subseteq> I" if "set (elems s b) \<subseteq> I" for b
      using that assms(2) True by (cases "b = a") (simp_all add: elems_write_same elems_write_other)
    then show ?thesis using assms(1) False
      by (fastforce simp: owned_def props_write_other)
  qed
qed

lemma owned_entry:
  assumes "owned n0 I s d" and "map_of (props s d) k = Some a"
  shows "n0 \<le> a \<and> a < length s \<and> a \<noteq> d \<and> set (elems s a) \<subseteq> I"
  using assms map_of_SomeD by (fastforce simp: owned_def)

lemma owned_add:
  assumes "owned n0 I s d" and "d < length s" and "n0 \<le> a" and "a < length s" and "a \<noteq> d"
    and "set (elems s a) \<subseteq> I"
  shows "owned n0 I (s[d := Dict (AList.update k a (props s d))]) d"
proof -
  let ?s = "s[d := Dict (AList.update k a (props s d))]"
  have ps: "props ?s d = AList.update k a (props s d)" using assms(2) by (simp add: props_write_same)
  have el: "set (elems ?s b) \<subseteq> I" if "set (elems s b) \<subseteq> I" for b
    using that assms(2) by (cases "b = d") (simp_all add: elems_write_Dict elems_write_other)
  have "n0 \<le> b \<and> b < length ?s \<and> b \<noteq> d \<and> set (elems ?s b) \<subseteq> I"
    if "(k', b) \<in> set (AList.update k a (props s d))" for k' b
  proof -
    have "(k', b) = (k, a) \<or> (k', b) \<in> set (props s d)"
      using that set_alist_update by fastforce
    then show ?thesis using assms el by (fastforce simp: owned_def)
  qed
  then show ?thesis unfolding owned_def ps by blast
qed

lemma owned_alloc:
  assumes "owned n0 I s d" and "d < length s"
  shows "owned n0 I (s @ [c]) d"
  using assms by (fastforce simp: owned_def props_alloc_old elems_alloc_old)

lemma phase1_create:
  assumes "phase1 s0 I companies s"
  shows "phase1 s0 I companies (create_group companies k s)"
proof (cases "prop_truthy (props s companies) k")
  case True
  then show ?thesis using assms by (simp add: create_group_def)
next
  case False
  let ?s1 = "s @ [Array []]"
  let ?s2 = "?s1[companies := Dict (AList.update k (length s) (props ?s1 companies))]"
  have c: "companies < length s" "length s0 \<le> companies" "frame s0 s"
    and o: "owned (length s0) I s companies"
    using assms by (simp_all add: phase1_def)
  have "owned (length s0) I ?s1 companies" using o c(1) by (rule owned_alloc)
  then have "owned (length s0) I ?s2 companies"
    using c by (intro owned_add) (simp_all add: elems_alloc_new frame_def)
  moreover have "frame s0 ?s2" using c by (intro frame_write frame_alloc)
  moreover have "create_group companies k s = ?s2"
    using False by (simp add: create_group_def alloc_def)
  ultimately show ?thesis using c by (simp add: phase1_def)
qed

lemma phase1_write:
  assumes "phase1 s0 I companies s" and "map_of (props s companies) k = Some a" and "set xs \<subseteq> I"
  shows "phase1 s0 I companies (s[a := Array xs])"
proof -
  have "length s0 \<le> a" using assms(1,2) owned_entry by (fastforce simp: phase1_def)
  then show ?thesis using assms(1,3)
    by (simp add: phase1_def frame_write owned_write_array)
qed

lemma on_array_set:
  assumes "\<And>ys. set (f ys) \<subseteq> set ys \<union> set zs"
  shows "set (elems (on_array s f a) b) \<subseteq> set (elems s b) \<union> payload ` set zs"
proof (cases "b = a \<and> a < length s")
  case True
  have "set (map payload (f (map (view s) (elems s a))))
      \<subseteq> payload ` (set (map (view s) (elems s a)) \<union> set zs)"
    using assms [of "map (view s) (elems s a)"] by auto
  also have "\<dots> = set (elems s a) \<union> payload ` set zs"
    by (simp add: image_Un image_image payload_view)
  finally show ?thesis using True by (simp add: on_array_def elems_write_same)
next
  case False
  then show ?thesis
    by (cases "a < length s") (auto simp: on_array_def elems_write_other list_update_beyond)
qed

lemma phase1_on_array:
  assumes "phase1 s0 I companies s" and "map_of (props s companies) k = Some a"
    and "\<And>ys. set (f ys) \<subseteq> set ys \<union> set zs" and "payload ` set zs \<subseteq> I"
  shows "phase1 s0 I companies (on_array s f a)"
proof -
  have "set (elems s a) \<subseteq> I" using assms(1,2) owned_entry by (fastforce simp: phase1_def)
  moreover have "a < length s" using assms(1,2) owned_entry by (fastforce simp: phase1_def)
  ultimately have "set (map payload (f (map (view s) (elems s a)))) \<subseteq> I"
    using on_array_set [OF assms(3), of s a a] assms(4)
    by (simp add: on_array_def elems_write_same) blast
  then show ?thesis unfolding on_array_def using assms(1,2) by (intro phase1_write)
qed

lemma props_on_array: "d \<noteq> a \<Longrightarrow> props (on_array s f a) d = props s d"
  by (simp add: on_array_def props_write_other)

lemma phase1_groupStep:
  assumes "phase1 s0 I companies s" and "b \<in> I"
  shows "phase1 s0 I companies (fst (groupStep_st m companies b s))"
proof -
  let ?k = "group_key (view s b)"
  let ?s1 = "create_group companies ?k s"
  have p1: "phase1 s0 I companies ?s1" using assms(1) by (rule phase1_create)
  show ?thesis
  proof (cases "map_of (props ?s1 companies) ?k")
    case None
    then show ?thesis using p1 by (simp add: groupStep_st_def Let_def)
  next
    case (Some a)
    have "set (elems ?s1 a @ [b]) \<subseteq> I"
      using owned_entry [OF _ Some] p1 assms(2) by (fastforce simp: phase1_def)
    then have "phase1 s0 I companies (?s1[a := Array (elems ?s1 a @ [b])])"
      using p1 Some by (intro phase1_write)
    then show ?thesis using p1 Some by (simp add: groupStep_st_def Let_def)
  qed
qed

lemma set_heap_insert_sub: "set (heap_insert ys z) \<subseteq> set ys \<union> set [z]"
  by (simp add: set_heap_insert)

lemma set_extractMin_sub: "set (snd (extractMin ys)) \<subseteq> set ys \<union> set []"
proof (cases "ys = []")
  case True
  then show ?thesis by (simp add: extractMin_def)
next
  case False
  then show ?thesis using extractMin_mset [OF False]
    by (metis set_mset_mset set_mset_add_mset_insert subset_insertI sup_bot.right_neutral list.set(1))
qed

lemma phase1_heapStep:
  assumes "phase1 s0 I companies s" and "b \<in> I"
  shows "phase1 s0 I companies (fst (heapStep_st topK m companies b s))"
proof -
  let ?k = "group_key (view s b)"
  let ?s1 = "create_group companies ?k s"
  have p1: "phase1 s0 I companies ?s1" using assms(1) by (rule phase1_create)
  show ?thesis
  proof (cases "map_of (props ?s1 companies) ?k")
    case None
    then show ?thesis using p1 by (simp add: heapStep_st_def Let_def)
  next
    case (Some a)
    let ?s2 = "on_array ?s1 (\<lambda>h. heap_insert h (view ?s1 b)) a"
    let ?s3 = "on_array ?s2 (\<lambda>h. snd (extractMin h)) a"
    have ne: "a \<noteq> companies"
      using owned_entry [OF _ Some] p1 by (fastforce simp: phase1_def)
    have p2: "phase1 s0 I companies ?s2"
      using p1 Some
    proof (rule phase1_on_array)
      show "\<And>ys. set (heap_insert ys (view ?s1 b)) \<subseteq> set ys \<union> set [view ?s1 b]"
        by (rule set_heap_insert_sub)
      show "payload ` set [view ?s1 b] \<subseteq> I" using assms(2) by (simp add: payload_view)
    qed
    have "map_of (props ?s2 companies) ?k = Some a"
      using Some ne by (simp add: props_on_array)
    with p2 have p3: "phase1 s0 I companies ?s3"
    proof (rule phase1_on_array)
      show "\<And>ys. set (snd (extractMin ys)) \<subseteq> set ys \<union> set []" by (rule set_extractMin_sub)
    qed simp
    show ?thesis using p1 p2 p3 Some by (simp add: heapStep_st_def Let_def)
  qed
qed

lemma phase1_forEach:
  assumes "\<And>s b. phase1 s0 I companies s \<Longrightarrow> b \<in> I \<Longrightarrow> phase1 s0 I companies (fst (f b s))"
    and "phase1 s0 I companies s" and "set xs \<subseteq> I"
  shows "phase1 s0 I companies (fst (forEach_st f xs s))"
  using assms(2,3)
proof (induction xs arbitrary: s)
  case Nil
  then show ?case by simp
next
  case (Cons x xs)
  have "phase1 s0 I companies (fst (f x s))" using Cons.prems by (intro assms(1)) simp_all
  then show ?case using Cons by (cases "f x s") (auto split: option.splits)
qed

lemma phase2_write_entry:
  assumes "phase2 s0 I E result s" and "(k, a) \<in> set E" and "set xs \<subseteq> I"
  shows "phase2 s0 I E result (s[a := Array xs])"
proof -
  have a: "length s0 \<le> a" "a < result" "result < length s"
    using assms(1,2) by (auto simp: phase2_def)
  have "set (elems (s[a := Array xs]) b) \<subseteq> I" if "set (elems s b) \<subseteq> I" for b
    using that assms(3) a by (cases "b = a") (simp_all add: elems_write_same elems_write_other)
  then have "\<forall>(k, b)\<in>set E. length s0 \<le> b \<and> b < result \<and> set (elems (s[a := Array xs]) b) \<subseteq> I"
    using assms(1) by (fastforce simp: phase2_def)
  then show ?thesis using assms(1,3) a
    by (simp add: phase2_def frame_write owned_write_array)
qed

lemma phase2_alloc_add:
  assumes "phase2 s0 I E result s" and "set xs \<subseteq> I"
  shows "phase2 s0 I E result
           ((s @ [Array xs])[result := Dict (AList.update k (length s) (props (s @ [Array xs]) result))])"
proof -
  let ?s1 = "s @ [Array xs]"
  let ?s2 = "?s1[result := Dict (AList.update k (length s) (props ?s1 result))]"
  have r: "length s0 \<le> result" "result < length s" "frame s0 s"
    and o: "owned (length s0) I s result"
    using assms(1) by (simp_all add: phase2_def)
  have "owned (length s0) I ?s1 result" using o r(2) by (rule owned_alloc)
  then have o2: "owned (length s0) I ?s2 result"
    using r assms(2) by (intro owned_add) (simp_all add: elems_alloc_new)
  have f2: "frame s0 ?s2" using r by (intro frame_write frame_alloc)
  have "set (elems ?s2 b) \<subseteq> I" if "set (elems s b) \<subseteq> I" and "b < result" for b
    using that r(2) by (simp add: elems_write_other elems_alloc_old)
  then have "\<forall>(k, b)\<in>set E. length s0 \<le> b \<and> b < result \<and> set (elems ?s2 b) \<subseteq> I"
    using assms(1) by (fastforce simp: phase2_def)
  then show ?thesis using o2 f2 r by (simp add: phase2_def)
qed

lemma phase2_entry:
  assumes "phase2 s0 I E result s" and "(k, a) \<in> set E"
  shows "length s0 \<le> a \<and> a < result \<and> result < length s \<and> set (elems s a) \<subseteq> I"
  using assms by (auto simp: phase2_def)

lemma phase2_sliceStep:
  assumes "phase2 s0 I E result s" and "(k, a) \<in> set E"
  shows "phase2 s0 I E result (sliceStep topK result (k, a) s)"
proof -
  let ?xs = "map payload (Array_sort compare_desc (map (view s) (elems s a)))"
  let ?s1 = "s[a := Array ?xs]"
  have e: "a < length s" "set (elems s a) \<subseteq> I"
    using phase2_entry [OF assms] by simp_all
  have xs: "set ?xs \<subseteq> I" using e(2) by (simp add: set_Array_sort image_image payload_view)
  have p1: "phase2 s0 I E result ?s1" using assms xs by (rule phase2_write_entry)
  have "elems ?s1 a = ?xs" using e(1) by (simp add: elems_write_same)
  then have "set (slice0 (elems ?s1 a) topK) \<subseteq> I"
    using xs set_slice0 [of ?xs topK] by simp
  then show ?thesis
    using phase2_alloc_add [OF p1, of "slice0 (elems ?s1 a) topK" k]
    by (simp add: sliceStep_def on_array_def alloc_def Let_def)
qed

lemma on_array_last:
  "on_array (t @ [Array d]) f (length t)
     = t @ [Array (map payload (f (map (view (t @ [Array d])) d)))]"
  by (simp add: on_array_def elems_alloc_new)

lemma phase2_drainStep:
  assumes "phase2 s0 I E result s" and "(k, a) \<in> set E"
  shows "phase2 s0 I E result (drainStep result (k, a) s)"
proof -
  let ?d = "map payload (drain (map (view s) (elems s a)) [])"
  let ?s1 = "s @ [Array ?d]"
  let ?s2 = "?s1[a := Array []]"
  let ?t = "s[a := Array []]"
  let ?xs = "map payload (Array_sort compare_desc (map (view (?t @ [Array ?d])) ?d))"
  have e: "a < length s" "set (elems s a) \<subseteq> I"
    using phase2_entry [OF assms] by simp_all
  have "set (drain (map (view s) (elems s a)) []) = set (map (view s) (elems s a))"
    using mset_drain [of "map (view s) (elems s a)" "[]"] by (metis add.right_neutral mset.simps(1) set_mset_mset)
  then have d: "set ?d \<subseteq> I" using e(2) by (simp add: image_image payload_view)
  have xs: "set ?xs \<subseteq> I"
  proof -
    have "set ?xs = payload ` set (map (view (?t @ [Array ?d])) ?d)" by (simp add: set_Array_sort)
    also have "\<dots> = set ?d" by (simp add: image_image payload_view)
    finally show ?thesis using d by simp
  qed
  have s2: "?s2 = ?t @ [Array ?d]" using e(1) by (simp add: list_update_append1)
  have s3: "on_array ?s2 (Array_sort compare_desc) (length s) = ?t @ [Array ?xs]"
    unfolding s2 using on_array_last [of ?t ?d "Array_sort compare_desc"] by simp
  have pt: "phase2 s0 I E result ?t" using assms by (rule phase2_write_entry) simp
  have "drainStep result (k, a) s
      = (?t @ [Array ?xs])[result := Dict (AList.update k (length ?t) (props (?t @ [Array ?xs]) result))]"
    using s3 by (simp add: drainStep_def alloc_def Let_def)
  then show ?thesis using phase2_alloc_add [OF pt xs, of k] by simp
qed

lemma phase2_fold:
  assumes "\<And>s e. phase2 s0 I E result s \<Longrightarrow> e \<in> set E \<Longrightarrow> phase2 s0 I E result (f e s)"
    and "phase2 s0 I E result s" and "set es \<subseteq> set E"
  shows "phase2 s0 I E result (fold f es s)"
  using assms(2,3) by (induction es arbitrary: s) (simp_all add: assms(1))

lemma phase1_start:
  assumes "bullets < length s"
  shows "phase1 s (set (elems s bullets)) (length s) (s @ [Dict []])"
  by (simp add: phase1_def frame_def nth_append owned_def props_alloc_new)

lemma phase2_start:
  assumes "phase1 s0 I companies s"
  shows "phase2 s0 I (props (s @ [Dict []]) companies) (length s) (s @ [Dict []])"
proof -
  have c: "companies < length s" "frame s0 s" and o: "owned (length s0) I s companies"
    using assms by (simp_all add: phase1_def)
  have "\<forall>(k, a)\<in>set (props s companies). length s0 \<le> a \<and> a < length s
      \<and> set (elems (s @ [Dict []]) a) \<subseteq> I"
    using o by (fastforce simp: owned_def elems_alloc_old)
  moreover have "owned (length s0) I (s @ [Dict []]) (length s)"
    by (simp add: owned_def props_alloc_new)
  moreover have "length s0 \<le> length s" using c(2) by (simp add: frame_def)
  ultimately show ?thesis using c
    by (simp add: phase2_def frame_alloc props_alloc_old)
qed

section \<open>The store and the values agree\<close>

lemma view_roundtrip: "set ys \<subseteq> view s ` A \<Longrightarrow> map (view s) (map payload ys) = ys"
proof -
  assume "set ys \<subseteq> view s ` A"
  then have "\<forall>y\<in>set ys. view s (payload y) = y" by (auto simp: payload_view)
  then show ?thesis by (simp add: map_idI)
qed

lemma view_frame: "frame s0 s \<Longrightarrow> a < length s0 \<Longrightarrow> view s a = view s0 a"
  by (simp add: frame_def view_def)

lemma update_absent: "k \<notin> fst ` set al \<Longrightarrow> AList.update k v al = al @ [(k, v)]"
  by (induction al) auto

lemma alist_update_map:
  "distinct (map fst al) \<Longrightarrow> distinct (map snd al) \<Longrightarrow> (k, a) \<in> set al
     \<Longrightarrow> map (\<lambda>(k', a'). (k', if a' = a then v else f a')) al
       = AList.update k v (map (\<lambda>(k', a'). (k', f a')) al)"
proof (induction al)
  case Nil
  then show ?case by simp
next
  case (Cons p al)
  obtain k' a' where p: "p = (k', a')" by (cases p)
  show ?case
  proof (cases "k' = k")
    case True
    then have "a' = a" using Cons.prems p by (force simp: image_iff)
    moreover have "\<forall>(k'', a'')\<in>set al. a'' \<noteq> a"
      using Cons.prems(2) p \<open>a' = a\<close> by (auto simp: image_iff)
    then have "map (\<lambda>(k', a'). (k', if a' = a then v else f a')) al = map (\<lambda>(k', a'). (k', f a')) al"
      by (intro map_cong) auto
    ultimately show ?thesis using p True by simp
  next
    case False
    then have "(k, a) \<in> set al" using Cons.prems(3) p by auto
    moreover have "a' \<noteq> a" using Cons.prems(2) p calculation by (force simp: image_iff)
    ultimately show ?thesis using Cons p False by simp
  qed
qed

lemma read_obj_keys: "map fst (read_obj s0 s d) = map fst (props s d)"
  by (simp add: read_obj_def comp_def case_prod_unfold)

lemma read_obj_lookup:
  "map_of (read_obj s0 s d) k = map_option (\<lambda>a. map (view s0) (elems s a)) (map_of (props s d) k)"
proof -
  have "map_of (map (\<lambda>(k, a). (k, f a)) al) k = map_option f (map_of al k)" for f :: "addr \<Rightarrow> addr bullet list" and al
    by (induction al) auto
  then show ?thesis by (simp add: read_obj_def)
qed

lemma sim1_write:
  assumes "sim1 s0 I companies s cs" and "map_of (props s companies) k = Some a" and "set xs \<subseteq> I"
  shows "sim1 s0 I companies (s[a := Array xs]) (AList.update k (map (view s0) xs) cs)"
proof -
  let ?s = "s[a := Array xs]"
  have p: "phase1 s0 I companies s" and d: "distinct (map fst (props s companies))"
      "distinct (map snd (props s companies))" and r: "read_obj s0 s companies = cs"
    using assms(1) by (simp_all add: sim1_def)
  have a: "a < length s" "a \<noteq> companies"
    using owned_entry [OF _ assms(2)] p by (fastforce simp: phase1_def)+
  have ps: "props ?s companies = props s companies" using a by (simp add: props_write_other)
  have el: "elems ?s a' = (if a' = a then xs else elems s a')" for a'
    using a by (simp add: elems_write_same elems_write_other)
  have "read_obj s0 ?s companies
      = map (\<lambda>(k', a'). (k', if a' = a then map (view s0) xs else map (view s0) (elems s a')))
          (props s companies)"
    unfolding read_obj_def ps by (intro map_cong) (auto simp: el)
  also have "\<dots> = AList.update k (map (view s0) xs) (read_obj s0 s companies)"
    unfolding read_obj_def using d assms(2) by (intro alist_update_map) (auto dest: map_of_SomeD)
  finally have "read_obj s0 ?s companies = AList.update k (map (view s0) xs) cs" using r by simp
  then show ?thesis using phase1_write [OF p assms(2,3)] d ps by (simp add: sim1_def)
qed

lemma sim1_truthy:
  assumes "sim1 s0 I companies s cs"
  shows "prop_truthy (props s companies) k = prop_truthy cs k"
proof -
  have "read_obj s0 s companies = cs" using assms by (simp add: sim1_def)
  then have "map_of cs k = map_option (\<lambda>a. map (view s0) (elems s a)) (map_of (props s companies) k)"
    using read_obj_lookup by metis
  then show ?thesis by (simp add: prop_truthy_def)
qed

lemma sim1_create:
  assumes "sim1 s0 I companies s cs"
  shows "sim1 s0 I companies (create_group companies k s)
           (if \<not> prop_truthy cs k then AList.update k [] cs else cs)"
proof (cases "prop_truthy (props s companies) k")
  case True
  then show ?thesis using assms sim1_truthy [OF assms, of k] by (simp add: create_group_def)
next
  case False
  let ?s1 = "s @ [Array []]"
  let ?ps = "props s companies @ [(k, length s)]"
  let ?s2 = "?s1[companies := Dict ?ps]"
  have p: "phase1 s0 I companies s" and d: "distinct (map fst (props s companies))"
      "distinct (map snd (props s companies))" and r: "read_obj s0 s companies = cs"
    using assms by (simp_all add: sim1_def)
  have c: "companies < length s" and o: "owned (length s0) I s companies"
    using p by (simp_all add: phase1_def)
  have nk: "k \<notin> fst ` set (props s companies)"
    using False by (simp add: prop_truthy_def map_of_eq_None_iff)
  have cg: "create_group companies k s = ?s2"
    using False nk c by (simp add: create_group_def alloc_def props_alloc_old update_absent)
  have ps2: "props ?s2 companies = ?ps" using c by (simp add: props_write_same)
  have old: "\<forall>(k', a')\<in>set (props s companies). a' < length s \<and> a' \<noteq> companies"
    using o by (fastforce simp: owned_def)
  then have fresh: "length s \<notin> snd ` set (props s companies)" by fastforce
  have el: "elems ?s2 a' = elems s a'" if "a' < length s" "a' \<noteq> companies" for a'
    using that by (simp add: elems_write_other elems_alloc_old)
  have "map (\<lambda>(k', a'). (k', map (view s0) (elems ?s2 a'))) (props s companies)
      = map (\<lambda>(k', a'). (k', map (view s0) (elems s a'))) (props s companies)"
    using old by (intro map_cong) (auto simp: el)
  moreover have "elems ?s2 (length s) = []"
    using c by (simp add: elems_write_other elems_alloc_new)
  ultimately have "read_obj s0 ?s2 companies = cs @ [(k, [])]"
    using r unfolding read_obj_def ps2 by simp
  moreover have "k \<notin> fst ` set cs" using nk r read_obj_keys [of s0 s companies] by (metis set_map)
  ultimately have ro: "read_obj s0 ?s2 companies = AList.update k [] cs"
    by (simp add: update_absent)
  have "phase1 s0 I companies ?s2" using phase1_create [OF p, of k] cg by simp
  then have "sim1 s0 I companies ?s2 (AList.update k [] cs)"
    using d nk fresh ro ps2 by (simp add: sim1_def)
  then show ?thesis using cg False sim1_truthy [OF assms, of k] by simp
qed

lemma sim1_content:
  assumes "sim1 s0 I companies s cs" and "map_of (props s companies) k = Some a"
    and "\<forall>x\<in>I. x < length s0"
  shows "map_of cs k = Some (map (view s0) (elems s a)) \<and> set (elems s a) \<subseteq> I
       \<and> map (view s) (elems s a) = map (view s0) (elems s a)"
proof -
  have p: "phase1 s0 I companies s" and r: "read_obj s0 s companies = cs"
    using assms(1) by (simp_all add: sim1_def)
  have sub: "set (elems s a) \<subseteq> I" using owned_entry [OF _ assms(2)] p by (fastforce simp: phase1_def)
  have "frame s0 s" using p by (simp add: phase1_def)
  then have "map (view s) (elems s a) = map (view s0) (elems s a)"
    using sub assms(3) by (intro map_cong) (auto simp: view_frame)
  moreover have "map_of cs k = Some (map (view s0) (elems s a))"
    using r read_obj_lookup [of s0 s companies k] assms(2) by simp
  ultimately show ?thesis using sub by simp
qed

lemma sim1_groupStep:
  assumes "sim1 s0 I companies s cs" and "b \<in> I" and "\<forall>x\<in>I. x < length s0"
  shows "case groupStep_st m companies b s of
           (s', None) \<Rightarrow> (\<exists>cs'. groupStep m cs (view s0 b) = Inr cs' \<and> sim1 s0 I companies s' cs')
         | (s', Some e) \<Rightarrow> groupStep m cs (view s0 b) = Inl e"
proof -
  let ?k = "group_key (view s0 b)"
  let ?s1 = "create_group companies ?k s"
  let ?cs1 = "if \<not> prop_truthy cs ?k then AList.update ?k [] cs else cs"
  have f: "frame s0 s" using assms(1) by (simp add: sim1_def phase1_def)
  have v: "view s b = view s0 b" using f assms(2,3) by (simp add: view_frame)
  have s1: "sim1 s0 I companies ?s1 ?cs1" using assms(1) by (rule sim1_create)
  then have f1: "frame s0 ?s1" by (simp add: sim1_def phase1_def)
  have v1: "view ?s1 b = view s0 b" using f1 assms(2,3) by (simp add: view_frame)
  show ?thesis
  proof (cases "meets m (view s0 b)")
    case False
    then show ?thesis using s1 v v1 by (simp add: groupStep_st_def groupStep_def Let_def)
  next
    case True
    show ?thesis
    proof (cases "map_of (props ?s1 companies) ?k")
      case None
      then have "map_of ?cs1 ?k = None"
        using s1 read_obj_lookup [of s0 ?s1 companies ?k] by (simp add: sim1_def)
      then show ?thesis using True None v v1
        by (simp add: groupStep_st_def groupStep_def Let_def)
    next
      case (Some a)
      note c = sim1_content [OF s1 Some assms(3)]
      have "set (elems ?s1 a @ [b]) \<subseteq> I" using c assms(2) by simp
      then have "sim1 s0 I companies (?s1[a := Array (elems ?s1 a @ [b])])
          (AList.update ?k (map (view s0) (elems ?s1 a @ [b])) ?cs1)"
        using s1 Some by (intro sim1_write)
      then show ?thesis using True Some c v v1
        by (simp add: groupStep_st_def groupStep_def Let_def)
    qed
  qed
qed

lemma sim1_on_array:
  assumes "sim1 s0 I companies s cs" and "map_of (props s companies) k = Some a"
    and "\<forall>x\<in>I. x < length s0" and "set (f (map (view s0) (elems s a))) \<subseteq> view s0 ` I"
  shows "sim1 s0 I companies (on_array s f a) (AList.update k (f (map (view s0) (elems s a))) cs)
       \<and> elems (on_array s f a) a = map payload (f (map (view s0) (elems s a)))
       \<and> map_of (props (on_array s f a) companies) k = Some a"
proof -
  let ?h = "f (map (view s0) (elems s a))"
  note c = sim1_content [OF assms(1,2,3)]
  have p: "phase1 s0 I companies s" using assms(1) by (simp add: sim1_def)
  have a: "a < length s" "a \<noteq> companies"
    using owned_entry [OF _ assms(2)] p by (fastforce simp: phase1_def)+
  have mv: "map (view s) (elems s a) = map (view s0) (elems s a)" using c by blast
  have oa: "on_array s f a = s[a := Array (map payload ?h)]"
    by (simp only: on_array_def mv)
  have "set (map payload ?h) \<subseteq> I" using assms(4) by (auto simp: payload_view)
  then have "sim1 s0 I companies (s[a := Array (map payload ?h)])
      (AList.update k (map (view s0) (map payload ?h)) cs)"
    using assms(1,2) by (intro sim1_write)
  moreover have "map (view s0) (map payload ?h) = ?h" using assms(4) by (rule view_roundtrip)
  ultimately show ?thesis using oa a assms(2)
    by (simp add: elems_write_same props_write_other)
qed

lemma sim1_heapStep:
  assumes "sim1 s0 I companies s cs" and "b \<in> I" and "\<forall>x\<in>I. x < length s0"
  shows "case heapStep_st topK m companies b s of
           (s', None) \<Rightarrow> (\<exists>cs'. heapStep topK m cs (view s0 b) = Inr cs' \<and> sim1 s0 I companies s' cs')
         | (s', Some e) \<Rightarrow> heapStep topK m cs (view s0 b) = Inl e"
proof -
  let ?k = "group_key (view s0 b)"
  let ?s1 = "create_group companies ?k s"
  let ?cs1 = "if \<not> prop_truthy cs ?k then AList.update ?k [] cs else cs"
  have f: "frame s0 s" using assms(1) by (simp add: sim1_def phase1_def)
  have v: "view s b = view s0 b" using f assms(2,3) by (simp add: view_frame)
  have s1: "sim1 s0 I companies ?s1 ?cs1" using assms(1) by (rule sim1_create)
  then have f1: "frame s0 ?s1" by (simp add: sim1_def phase1_def)
  have v1: "view ?s1 b = view s0 b" using f1 assms(2,3) by (simp add: view_frame)
  show ?thesis
  proof (cases "meets m (view s0 b)")
    case False
    then have "heapStep topK m cs (view s0 b) = Inr ?cs1"
      by (simp add: heapStep_def Let_def MinHeap_new_def)
    moreover have "heapStep_st topK m companies b s = (?s1, None)"
      using False v v1 by (simp add: heapStep_st_def Let_def)
    ultimately show ?thesis using s1 by simp
  next
    case True
    show ?thesis
    proof (cases "map_of (props ?s1 companies) ?k")
      case None
      then have "map_of ?cs1 ?k = None"
        using s1 read_obj_lookup [of s0 ?s1 companies ?k] by (simp add: sim1_def)
      then have "heapStep topK m cs (view s0 b) = Inl TypeError"
        using True by (auto simp: heapStep_def Let_def MinHeap_new_def split: if_splits)
      moreover have "heapStep_st topK m companies b s = (?s1, Some TypeError)"
        using True None v v1 by (simp add: heapStep_st_def Let_def)
      ultimately show ?thesis by simp
    next
      case (Some a)
      note c = sim1_content [OF s1 Some assms(3)]
      let ?v = "map (view s0) (elems ?s1 a)"
      let ?h1 = "heap_insert ?v (view s0 b)"
      let ?s2 = "on_array ?s1 (\<lambda>h. heap_insert h (view s0 b)) a"
      let ?h2 = "snd (extractMin ?h1)"
      let ?s3 = "on_array ?s2 (\<lambda>h. snd (extractMin h)) a"
      have h1: "set ?h1 \<subseteq> view s0 ` I"
        using c assms(2) by (auto simp: set_heap_insert)
      note st2 = sim1_on_array [OF s1 Some assms(3), of "\<lambda>h. heap_insert h (view s0 b)", OF h1]
      have el2: "elems ?s2 a = map payload ?h1" using st2 by blast
      have e2: "map (view s0) (elems ?s2 a) = ?h1"
        unfolding el2 using h1 by (rule view_roundtrip)
      have h2: "set ?h2 \<subseteq> view s0 ` I" using set_extractMin_sub [of ?h1] h1 by auto
      have sim2: "sim1 s0 I companies ?s2 (AList.update ?k ?h1 ?cs1)" using st2 by blast
      have look2: "map_of (props ?s2 companies) ?k = Some a" using st2 by blast
      have h2': "set (snd (extractMin (map (view s0) (elems ?s2 a)))) \<subseteq> view s0 ` I"
        unfolding e2 by (rule h2)
      have "sim1 s0 I companies ?s3
          (AList.update ?k (snd (extractMin (map (view s0) (elems ?s2 a)))) (AList.update ?k ?h1 ?cs1))"
        using sim1_on_array [OF sim2 look2 assms(3), of "\<lambda>h. snd (extractMin h)", OF h2'] by blast
      then have st3: "sim1 s0 I companies ?s3 (AList.update ?k ?h2 ?cs1)"
        unfolding e2 by (simp only: update_last)
      have len: "length (elems ?s2 a) = heap_size ?h1" unfolding el2 by (simp add: heap_size_def)
      have val: "heapStep topK m cs (view s0 b)
          = Inr (AList.update ?k (if int (heap_size ?h1) > topK then ?h2 else ?h1) ?cs1)"
        using True c by (auto simp: heapStep_def Let_def MinHeap_new_def split: if_splits)
      have sto: "heapStep_st topK m companies b s
          = ((if int (heap_size ?h1) > topK then ?s3 else ?s2), None)"
        using True Some v v1 len by (simp add: heapStep_st_def Let_def)
      show ?thesis
      proof (cases "int (heap_size ?h1) > topK")
        case True
        then show ?thesis using val sto st3 by simp
      next
        case False
        then show ?thesis using val sto sim2 by simp
      qed
    qed
  qed
qed

lemma sim1_forEach:
  assumes "\<And>s cs b. sim1 s0 I companies s cs \<Longrightarrow> b \<in> I \<Longrightarrow>
             (case fst_step b s of
                (s', None) \<Rightarrow> (\<exists>cs'. step cs (view s0 b) = Inr cs' \<and> sim1 s0 I companies s' cs')
              | (s', Some e) \<Rightarrow> step cs (view s0 b) = Inl e)"
    and "sim1 s0 I companies s cs" and "set xs \<subseteq> I"
  shows "case forEach_st fst_step xs s of
           (s', None) \<Rightarrow> (\<exists>cs'. forEach step cs (map (view s0) xs) = Inr cs' \<and> sim1 s0 I companies s' cs')
         | (s', Some e) \<Rightarrow> forEach step cs (map (view s0) xs) = Inl e"
  using assms(2,3)
proof (induction xs arbitrary: s cs)
  case Nil
  then show ?case by simp
next
  case (Cons x xs)
  obtain s1 e where st: "fst_step x s = (s1, e)" by (cases "fst_step x s")
  show ?case
  proof (cases e)
    case (Some err)
    then show ?thesis using assms(1) [OF Cons.prems(1), of x] Cons.prems(2) st by simp
  next
    case None
    then obtain cs1 where c: "step cs (view s0 x) = Inr cs1" "sim1 s0 I companies s1 cs1"
      using assms(1) [OF Cons.prems(1), of x] Cons.prems(2) st by auto
    have store: "forEach_st fst_step (x # xs) s = forEach_st fst_step xs s1"
      using st None by simp
    have val: "forEach step cs (map (view s0) (x # xs)) = forEach step cs1 (map (view s0) xs)"
      using c(1) by simp
    show ?thesis unfolding store val using Cons.IH [OF c(2)] Cons.prems(2) by simp
  qed
qed

lemma slice0_map: "slice0 (map f xs) e = map f (slice0 xs e)"
  by (simp add: slice0_def take_map)

lemma views_frame:
  assumes "frame s0 s" and "set xs \<subseteq> I" and "\<forall>x\<in>I. x < length s0"
  shows "map (view s) xs = map (view s0) xs"
  using assms by (intro map_cong) (auto simp: view_frame)

lemma phase2_frame: "phase2 s0 I E result s \<Longrightarrow> frame s0 s"
  by (simp add: phase2_def)

lemma sliceStep_effect:
  assumes "\<forall>x\<in>I. x < length s0"
  shows "step_effect (\<lambda>v. slice0 (Array_sort compare_desc v) topK) s0 I E result
           (sliceStep topK result)"
  unfolding step_effect_def
proof (intro allI impI)
  fix s :: "'a store" and k a
  assume "phase2 s0 I E result s \<and> (k, a) \<in> set E"
  then have p: "phase2 s0 I E result s" and m: "(k, a) \<in> set E" by simp_all
  note e = phase2_entry [OF p m]
  let ?v = "map (view s0) (elems s a)"
  let ?xs = "map payload (Array_sort compare_desc ?v)"
  let ?ys = "slice0 ?xs topK"
  have vs: "map (view s) (elems s a) = ?v"
    using views_frame [OF phase2_frame [OF p] _ assms] e by blast
  have sv: "set (Array_sort compare_desc ?v) \<subseteq> view s0 ` I" using e by (auto simp: set_Array_sort)
  have xs: "set ?xs \<subseteq> I" using e by (simp add: set_Array_sort image_image payload_view)
  have ys: "set ?ys \<subseteq> I" using xs set_slice0 [of ?xs topK] by blast
  have "map (view s0) ?ys = slice0 (map (view s0) ?xs) topK" by (simp only: slice0_map)
  also have "map (view s0) ?xs = Array_sort compare_desc ?v" using sv by (rule view_roundtrip)
  finally have rb: "map (view s0) ?ys = slice0 (Array_sort compare_desc ?v) topK" .
  have a: "a < length s" "a \<noteq> result" "result < length s" using e by simp_all
  have s1: "on_array s (Array_sort compare_desc) a = s[a := Array ?xs]"
    by (simp only: on_array_def vs)
  have "sliceStep topK result (k, a) s
      = ((s[a := Array ?xs]) @ [Array ?ys])[result := Dict (AList.update k (length s) (props s result))]"
    using a by (simp add: sliceStep_def s1 alloc_def Let_def elems_write_same props_alloc_old
        props_write_other)
  then show "\<exists>xs ys. set xs \<subseteq> I \<and> set ys \<subseteq> I
      \<and> map (view s0) ys = slice0 (Array_sort compare_desc (map (view s0) (elems s a))) topK
      \<and> sliceStep topK result (k, a) s
          = ((s[a := Array xs]) @ [Array ys])[result := Dict (AList.update k (length s) (props s result))]"
    using xs ys rb by blast
qed

lemma drainStep_effect:
  assumes "\<forall>x\<in>I. x < length s0"
  shows "step_effect (\<lambda>v. Array_sort compare_desc (drain v [])) s0 I E result (drainStep result)"
  unfolding step_effect_def
proof (intro allI impI)
  fix s :: "'a store" and k a
  assume "phase2 s0 I E result s \<and> (k, a) \<in> set E"
  then have p: "phase2 s0 I E result s" and m: "(k, a) \<in> set E" by simp_all
  note e = phase2_entry [OF p m]
  let ?v = "map (view s0) (elems s a)"
  let ?d = "map payload (drain ?v [])"
  let ?t = "s[a := Array []]"
  let ?ys = "map payload (Array_sort compare_desc (drain ?v []))"
  have a: "a < length s" "a \<noteq> result" "result < length s" using e by simp_all
  have vs: "map (view s) (elems s a) = ?v"
    using views_frame [OF phase2_frame [OF p] _ assms] e by blast
  have sd: "set (drain ?v []) = set ?v"
    using mset_drain [of ?v "[]"] by (metis add.right_neutral mset.simps(1) set_mset_mset)
  then have dv: "set (drain ?v []) \<subseteq> view s0 ` I" using e by auto
  have dI: "set ?d \<subseteq> I" using sd e by (simp add: image_image payload_view)
  have pt: "phase2 s0 I E result ?t" using p m by (rule phase2_write_entry) simp
  have ft: "frame s0 (?t @ [Array ?d])" using phase2_frame [OF pt] by (rule frame_alloc)
  have "map (view (?t @ [Array ?d])) ?d = map (view s0) ?d"
    using views_frame [OF ft dI assms] .
  also have "\<dots> = drain ?v []" using dv by (rule view_roundtrip)
  finally have vd: "map (view (?t @ [Array ?d])) ?d = drain ?v []" .
  have s2: "(s @ [Array ?d])[a := Array []] = ?t @ [Array ?d]"
    using a by (simp add: list_update_append1)
  have "on_array (?t @ [Array ?d]) (Array_sort compare_desc) (length ?t) = ?t @ [Array ?ys]"
    using on_array_last [of ?t ?d "Array_sort compare_desc"] by (simp only: vd)
  then have s3: "on_array (?t @ [Array ?d]) (Array_sort compare_desc) (length s) = ?t @ [Array ?ys]"
    by simp
  have "drainStep result (k, a) s
      = (?t @ [Array ?ys])[result := Dict (AList.update k (length s) (props (?t @ [Array ?ys]) result))]"
    by (simp add: drainStep_def alloc_def Let_def vs s2 s3)
  moreover have "props (?t @ [Array ?ys]) result = props s result"
    using a by (simp add: props_alloc_old props_write_other)
  moreover have "set ?ys \<subseteq> I"
    using sd e by (simp add: set_Array_sort image_image payload_view)
  moreover have "map (view s0) ?ys = Array_sort compare_desc (drain ?v [])"
    using dv by (intro view_roundtrip [of _ _ I]) (simp add: set_Array_sort)
  ultimately show "\<exists>xs ys. set xs \<subseteq> I \<and> set ys \<subseteq> I
      \<and> map (view s0) ys = Array_sort compare_desc (drain (map (view s0) (elems s a)) [])
      \<and> drainStep result (k, a) s
          = ((s[a := Array xs]) @ [Array ys])[result := Dict (AList.update k (length s) (props s result))]"
    by (metis empty_subsetI list.set(1))
qed

lemma sim2_step:
  assumes eff: "step_effect F s0 I E result step"
    and dist: "distinct (map fst E)" "distinct (map snd E)"
    and sim: "sim2 F s0 I E result s3 finished ((k, a) # todo) s"
  shows "sim2 F s0 I E result s3 (finished @ [(k, a)]) todo (step (k, a) s)"
proof -
  have p: "phase2 s0 I E result s" and E: "E = finished @ (k, a) # todo"
    and td: "\<forall>(k', a')\<in>set ((k, a) # todo). elems s a' = elems s3 a'"
    and ro: "read_obj s0 s result = map (\<lambda>(k, a). (k, F (map (view s0) (elems s3 a)))) finished"
    and sl: "\<forall>(k', g)\<in>set (props s result). result < g \<and> g < length s"
    using sim unfolding sim2_def by blast+
  have m: "(k, a) \<in> set E" using E by simp
  note e = phase2_entry [OF p m]
  obtain xs ys where xs: "set xs \<subseteq> I" and ys: "set ys \<subseteq> I"
    and rb: "map (view s0) ys = F (map (view s0) (elems s a))"
    and st: "step (k, a) s
        = ((s[a := Array xs]) @ [Array ys])[result := Dict (AList.update k (length s) (props s result))]"
    using eff p m unfolding step_effect_def by blast
  let ?t = "s[a := Array xs]"
  let ?s' = "(?t @ [Array ys])[result := Dict (AList.update k (length s) (props s result))]"
  have a: "a < length s" "a < result" "result < length s" using e by simp_all
  have pt: "phase2 s0 I E result ?t" using p m xs by (rule phase2_write_entry)
  have "props (?t @ [Array ys]) result = props s result"
    using a by (simp add: props_alloc_old props_write_other)
  then have p': "phase2 s0 I E result ?s'"
    using phase2_alloc_add [OF pt ys, of k] by simp
  have keys: "map fst (props s result) = map fst finished"
    using ro read_obj_keys [of s0 s result] by (simp add: comp_def case_prod_unfold)
  have "k \<notin> fst ` set finished" using dist(1) E by auto
  then have nk: "k \<notin> fst ` set (props s result)" using keys by (metis set_map)
  then have up: "AList.update k (length s) (props s result) = props s result @ [(k, length s)]"
    by (rule update_absent)
  have ps': "props ?s' result = props s result @ [(k, length s)]"
    using a up by (simp add: props_write_same)
  have el_old: "elems ?s' g = elems s g" if "g < length s" "g \<noteq> a" "g \<noteq> result" for g
    using that by (simp add: elems_write_other elems_alloc_old)
  have el_new: "elems ?s' (length s) = ys"
    using a elems_alloc_new [of ?t ys] by (simp add: elems_write_other)
  have "map (\<lambda>(k', g). (k', map (view s0) (elems ?s' g))) (props s result)
      = map (\<lambda>(k', g). (k', map (view s0) (elems s g))) (props s result)"
    using sl a by (intro map_cong) (auto simp: el_old)
  then have ro': "read_obj s0 ?s' result
      = map (\<lambda>(k, a). (k, F (map (view s0) (elems s3 a)))) (finished @ [(k, a)])"
    using ro rb td el_new unfolding read_obj_def ps' by simp
  have "a \<notin> snd ` set todo" using dist(2) E by auto
  then have td': "\<forall>(k', a')\<in>set todo. elems ?s' a' = elems s3 a'"
  proof (intro ballI, clarify)
    fix k' a' assume n: "a \<notin> snd ` set todo" and i: "(k', a') \<in> set todo"
    then have "(k', a') \<in> set E" using E by simp
    then have "a' < result" using phase2_entry [OF p] by blast
    moreover have "a' \<noteq> a" using n i by force
    ultimately have "elems ?s' a' = elems s a'" using a by (intro el_old) simp_all
    then show "elems ?s' a' = elems s3 a'" using td i by auto
  qed
  have sl': "\<forall>(k', g)\<in>set (props ?s' result). result < g \<and> g < length ?s'"
    using sl a unfolding ps' by auto
  show ?thesis using p' E td' ro' sl' st by (simp add: sim2_def)
qed

lemma sim2_fold:
  assumes "step_effect F s0 I E result step" and "distinct (map fst E)" "distinct (map snd E)"
    and "sim2 F s0 I E result s3 finished todo s"
  shows "sim2 F s0 I E result s3 (finished @ todo) [] (fold step todo s)"
  using assms(4)
proof (induction todo arbitrary: finished s)
  case Nil
  then show ?case by simp
next
  case (Cons e todo)
  obtain k a where e: "e = (k, a)" by (cases e)
  have "sim2 F s0 I E result s3 (finished @ [(k, a)]) todo (step (k, a) s)"
    using assms(1,2,3) Cons.prems unfolding e by (rule sim2_step)
  then have "sim2 F s0 I E result s3 ((finished @ [(k, a)]) @ todo) [] (fold step todo (step (k, a) s))"
    by (rule Cons.IH)
  then show ?case using e by simp
qed

lemma phase2_result:
  assumes sim: "sim1 s0 I companies s2 cs" and eff: "\<And>E. step_effect F s0 I E (length s2) step"
  shows "read_obj s0 (fold step (props (s2 @ [Dict []]) companies) (s2 @ [Dict []])) (length s2)
       = map (\<lambda>(k, v). (k, F v)) cs"
proof -
  let ?s3 = "s2 @ [Dict []]"
  let ?E = "props ?s3 companies"
  have p: "phase1 s0 I companies s2" and d: "distinct (map fst (props s2 companies))"
      "distinct (map snd (props s2 companies))" and r: "read_obj s0 s2 companies = cs"
    using sim by (simp_all add: sim1_def)
  have c: "companies < length s2" using p by (simp add: phase1_def)
  then have E: "?E = props s2 companies" by (simp add: props_alloc_old)
  have "sim2 F s0 I ?E (length s2) ?s3 [] ?E ?s3"
    using phase2_start [OF p] by (simp add: sim2_def read_obj_def props_alloc_new)
  then have "sim2 F s0 I ?E (length s2) ?s3 ([] @ ?E) [] (fold step ?E ?s3)"
    using eff d unfolding E by (intro sim2_fold) simp_all
  then have "read_obj s0 (fold step ?E ?s3) (length s2)
      = map (\<lambda>(k, a). (k, F (map (view s0) (elems ?s3 a)))) ?E"
    by (simp add: sim2_def)
  also have "\<dots> = map (\<lambda>(k, a). (k, F (map (view s0) (elems s2 a)))) (props s2 companies)"
  proof -
    have "\<forall>(k, a)\<in>set (props s2 companies). a < length s2"
      using p by (fastforce simp: phase1_def owned_def)
    then show ?thesis unfolding E by (intro map_cong) (auto simp: elems_alloc_old)
  qed
  also have "\<dots> = map (\<lambda>(k, v). (k, F v)) cs"
    unfolding r [symmetric] read_obj_def by (simp add: comp_def case_prod_unfold)
  finally show ?thesis .
qed

lemma sim1_start:
  assumes "bullets < length s"
  shows "sim1 s (set (elems s bullets)) (length s) (s @ [Dict []]) []"
  using phase1_start [OF assms] by (simp add: sim1_def read_obj_def props_alloc_new)

text \<open>
  The functions over the store compute what the functions on values compute: the outcome
  of a call, with the returned object read back, is the outcome of the function on values
  applied to the records of the input array.
\<close>

lemma store_refines:
  assumes "bullets < length s" and "\<forall>a\<in>set (elems s bullets). a < length s"
  shows "filterBulletsByCompany_st bullets topK minScore s = (s', res)
           \<Longrightarrow> filterBulletsByCompany (map (view s) (elems s bullets)) topK minScore
               = map_sum id (read_obj s s') res"
    and "filterBulletsWithHeap_st bullets topK minScore s = (s', res)
           \<Longrightarrow> filterBulletsWithHeap (map (view s) (elems s bullets)) topK minScore
               = map_sum id (read_obj s s') res"
proof -
  let ?I = "set (elems s bullets)"
  let ?s1 = "s @ [Dict []]"
  have in1: "elems ?s1 bullets = elems s bullets" using assms(1) by (simp add: elems_alloc_old)
  have s0: "sim1 s ?I (length s) ?s1 []" using assms(1) by (rule sim1_start)
  have I: "\<forall>x\<in>?I. x < length s" using assms(2) .
  {
    assume a: "filterBulletsByCompany_st bullets topK minScore s = (s', res)"
    obtain s2 e where fe: "forEach_st (groupStep_st minScore (length s)) (elems s bullets) ?s1 = (s2, e)"
      by (cases "forEach_st (groupStep_st minScore (length s)) (elems s bullets) ?s1")
    have fs: "case forEach_st (groupStep_st minScore (length s)) (elems s bullets) ?s1 of
        (s', None) \<Rightarrow> (\<exists>cs'. forEach (groupStep minScore) [] (map (view s) (elems s bullets)) = Inr cs'
                          \<and> sim1 s ?I (length s) s' cs')
      | (s', Some e) \<Rightarrow> forEach (groupStep minScore) [] (map (view s) (elems s bullets)) = Inl e"
    proof (rule sim1_forEach [OF _ s0])
      show "set (elems s bullets) \<subseteq> ?I" by simp
    qed (rule sim1_groupStep [OF _ _ I])
    show "filterBulletsByCompany (map (view s) (elems s bullets)) topK minScore
        = map_sum id (read_obj s s') res"
    proof (cases e)
      case (Some err)
      then show ?thesis using a fe fs
        by (auto simp: filterBulletsByCompany_st_def filterBulletsByCompany_def alloc_def in1)
    next
      case None
      then obtain cs where cs: "forEach (groupStep minScore) [] (map (view s) (elems s bullets)) = Inr cs"
          "sim1 s ?I (length s) s2 cs"
        using fe fs by auto
      have "read_obj s (fold (sliceStep topK (length s2)) (props (s2 @ [Dict []]) (length s))
          (s2 @ [Dict []])) (length s2)
          = map (\<lambda>(k, v). (k, slice0 (Array_sort compare_desc v) topK)) cs"
        using cs(2) sliceStep_effect [OF I] by (rule phase2_result)
      then show ?thesis using a fe None cs(1)
        by (auto simp: filterBulletsByCompany_st_def filterBulletsByCompany_def alloc_def in1)
    qed
  next
    assume a: "filterBulletsWithHeap_st bullets topK minScore s = (s', res)"
    obtain s2 e where fe: "forEach_st (heapStep_st topK minScore (length s)) (elems s bullets) ?s1 = (s2, e)"
      by (cases "forEach_st (heapStep_st topK minScore (length s)) (elems s bullets) ?s1")
    have fs: "case forEach_st (heapStep_st topK minScore (length s)) (elems s bullets) ?s1 of
        (s', None) \<Rightarrow> (\<exists>cs'. forEach (heapStep topK minScore) [] (map (view s) (elems s bullets)) = Inr cs'
                          \<and> sim1 s ?I (length s) s' cs')
      | (s', Some e) \<Rightarrow> forEach (heapStep topK minScore) [] (map (view s) (elems s bullets)) = Inl e"
    proof (rule sim1_forEach [OF _ s0])
      show "set (elems s bullets) \<subseteq> ?I" by simp
    qed (rule sim1_heapStep [OF _ _ I])
    show "filterBulletsWithHeap (map (view s) (elems s bullets)) topK minScore
        = map_sum id (read_obj s s') res"
    proof (cases e)
      case (Some err)
      then show ?thesis using a fe fs
        by (auto simp: filterBulletsWithHeap_st_def filterBulletsWithHeap_def alloc_def in1)
    next
      case None
      then obtain cs where cs: "forEach (heapStep topK minScore) [] (map (view s) (elems s bullets)) = Inr cs"
          "sim1 s ?I (length s) s2 cs"
        using fe fs by auto
      have "read_obj s (fold (drainStep (length s2)) (props (s2 @ [Dict []]) (length s))
          (s2 @ [Dict []])) (length s2)
          = map (\<lambda>(k, v). (k, Array_sort compare_desc (drain v []))) cs"
        using cs(2) drainStep_effect [OF I] by (rule phase2_result)
      then show ?thesis using a fe None cs(1)
        by (auto simp: filterBulletsWithHeap_st_def filterBulletsWithHeap_def alloc_def in1)
    qed
  }
qed

section \<open>The claims\<close>

lemmas run_simps =
  filterBulletsByCompany_def filterBulletsWithHeap_def groupStep_def heapStep_def
  group_key_def js_or_def meets_def js_ge_def js_lt_def js_sub_def prop_truthy_def
  Object_prototype_names_def Array_sort_def SortCompare_def compare_desc_def slice0_def
  MinHeap_new_def heap_insert_def heap_size_def bubbleUp_def extractMin_def sinkDown_def
  sinkDown_swap_def Let_def bubbleUp_loop.simps sinkDown_loop.simps drain.simps

lemmas example_simps = bullet_of_def scenario_def unscored_def falsy_examples_def

lemma fold_insert_inv:
  "heap_ordered h \<Longrightarrow> \<forall>b\<in>set h. has_score b \<Longrightarrow> \<forall>b\<in>set bs. has_score b
     \<Longrightarrow> heap_ordered (fold (\<lambda>b h. heap_insert h b) bs h)
       \<and> mset (fold (\<lambda>b h. heap_insert h b) bs h) = mset h + mset bs"
proof (induction bs arbitrary: h)
  case Nil
  then show ?case by simp
next
  case (Cons b bs)
  have "heap_ordered (heap_insert h b)" using Cons.prems by (simp add: heap_insert_ordered)
  moreover have "\<forall>x\<in>set (heap_insert h b). has_score x"
    using Cons.prems by (simp add: set_heap_insert)
  ultimately show ?case using Cons.IH [of "heap_insert h b"] Cons.prems
    by (simp add: mset_heap_insert)
qed

text \<open>The two functions on the examples.\<close>

lemma scenario_sort:
  "filterBulletsByCompany scenario 2 60 =
     Inr [(''A'', [bullet_of ''A'' 90, bullet_of ''A'' 70]), (''B'', [])]"
  by (simp add: example_simps run_simps)

lemma scenario_heap:
  "filterBulletsWithHeap scenario 2 60 =
     Inr [(''A'', [bullet_of ''A'' 90, bullet_of ''A'' 70]), (''B'', [])]"
  by (simp add: example_simps run_simps)

lemma scenario_sort_top1:
  "filterBulletsByCompany scenario 1 0 =
     Inr [(''A'', [bullet_of ''A'' 90]), (''B'', [bullet_of ''B'' 40])]"
  by (simp add: example_simps run_simps)

lemma scenario_heap_top1:
  "filterBulletsWithHeap scenario 1 0 =
     Inr [(''A'', [bullet_of ''A'' 90]), (''B'', [bullet_of ''B'' 40])]"
  by (simp add: example_simps run_simps)

lemma unscored_sort:
  "filterBulletsByCompany [unscored, bullet_of ''A'' 90] 5 0 = Inr [(''A'', [bullet_of ''A'' 90])]"
  by (simp add: example_simps run_simps)

lemma unscored_heap:
  "filterBulletsWithHeap [unscored, bullet_of ''A'' 90] 5 0 = Inr [(''A'', [bullet_of ''A'' 90])]"
  by (simp add: example_simps run_simps)

lemma falsy_sort: "filterBulletsByCompany falsy_examples 5 0 = Inr [(''Unknown'', falsy_examples)]"
  by (simp add: example_simps run_simps)

lemma falsy_heap: "filterBulletsWithHeap falsy_examples 5 0 = Inr [(''Unknown'', falsy_examples)]"
  by (simp add: example_simps run_simps)

lemma scenario_no_tie: "no_boundary_tie scenario 1 0"
  by (simp add: no_boundary_tie_def group_of_def example_simps run_simps)

lemma unscored_inherited_throw:
  "filterBulletsByCompany [unscored, bullet_of ''constructor'' 90] 5 0 = Inl TypeError
   \<and> filterBulletsWithHeap [unscored, bullet_of ''constructor'' 90] 5 0 = Inl TypeError"
  by (simp add: example_simps run_simps)

text \<open>
  C1. Whenever either strategy returns a mapping for \<open>topK \<ge> 1\<close>, every group of the
  mapping has at most \<open>topK\<close> records, and every record \<open>b\<close> of every group satisfies
  \<^verbatim>\<open>b.relevance_score >= minScore\<close>.
\<close>

theorem group_size_and_threshold:
  assumes "1 \<le> topK"
    and "filterBulletsByCompany bs topK minScore = Inr r
         \<or> filterBulletsWithHeap bs topK minScore = Inr r"
    and "(k, g) \<in> set r"
  shows "int (length g) \<le> topK \<and> (\<forall>b\<in>set g. meets minScore b)"
proof -
  have "int (length g) \<le> topK"
    using assms(2)
  proof
    assume a: "filterBulletsByCompany bs topK minScore = Inr r"
    show ?thesis
      using entry_A [OF a assms(3)]
        length_slice0 [of topK "Array_sort compare_desc (group_of minScore k bs)"] assms(1)
      by simp
  next
    assume b: "filterBulletsWithHeap bs topK minScore = Inr r"
    show ?thesis
      using entry_B [OF b assms(3)] length_group_B [of topK minScore k bs] assms(1) by simp
  qed
  then show ?thesis using entry_members [OF assms(2,3)] by blast
qed

theorem group_size_and_threshold_witness:
  "(1::int) \<le> 2
   \<and> filterBulletsWithHeap scenario 2 60
       = Inr [(''A'', [bullet_of ''A'' 90, bullet_of ''A'' 70]), (''B'', [])]
   \<and> int (length [bullet_of ''A'' 90, bullet_of ''A'' 70]) \<le> 2
   \<and> meets 60 (bullet_of ''A'' 90) \<and> meets 60 (bullet_of ''A'' 70)"
  using group_size_and_threshold [of 2 scenario 60
      "[(''A'', [bullet_of ''A'' 90, bullet_of ''A'' 70]), (''B'', [])]"
      "''A''" "[bullet_of ''A'' 90, bullet_of ''A'' 70]"]
    scenario_heap
  by simp

text \<open>
  C2. Whenever either strategy returns a mapping, every group of the mapping is in
  non-increasing order of \<^verbatim>\<open>relevance_score\<close>.
\<close>

theorem groups_sorted:
  assumes "filterBulletsByCompany bs topK minScore = Inr r
           \<or> filterBulletsWithHeap bs topK minScore = Inr r"
    and "(k, g) \<in> set r"
  shows "non_increasing g"
  using assms(1)
proof
  assume a: "filterBulletsByCompany bs topK minScore = Inr r"
  have "g = slice0 (Array_sort compare_desc (group_of minScore k bs)) topK"
    using entry_A [OF a assms(2)] by simp
  then show ?thesis
    by (simp add: non_increasing_slice0 Array_sort_non_increasing group_of_scored)
next
  assume b: "filterBulletsWithHeap bs topK minScore = Inr r"
  have g: "g = Array_sort compare_desc
      (drain (foldl (heap_push topK) MinHeap_new (group_of minScore k bs)) [])"
    using entry_B [OF b assms(2)] by simp
  have "\<forall>b\<in>set (drain (foldl (heap_push topK) MinHeap_new (group_of minScore k bs)) []). has_score b"
    using group_heap [of topK minScore k bs]
    by (metis mset_drain mset.simps(1) add.right_neutral set_mset_mset)
  then show ?thesis unfolding g by (rule Array_sort_non_increasing)
qed

theorem groups_sorted_witness:
  "filterBulletsByCompany scenario 2 60
       = Inr [(''A'', [bullet_of ''A'' 90, bullet_of ''A'' 70]), (''B'', [])]
   \<and> non_increasing [bullet_of ''A'' 90, bullet_of ''A'' 70]"
  using groups_sorted [of scenario 2 60
      "[(''A'', [bullet_of ''A'' 90, bullet_of ''A'' 70]), (''B'', [])]"
      "''A''" "[bullet_of ''A'' 90, bullet_of ''A'' 70]"]
    scenario_sort
  by simp

text \<open>
  C3, as stated for any \<open>topK\<close>, fails at a negative one. With \<open>topK = -1\<close> and two records
  of one company scoring 90 and 70 (no tie anywhere), \<^verbatim>\<open>slice(0, -1)\<close> drops the last record
  of the sorted group and keeps the first, while the heap strategy, where every size
  exceeds \<open>topK\<close>, follows each \<^verbatim>\<open>insert\<close> with an \<^verbatim>\<open>extractMin\<close> and keeps none: the
  multisets of \<open>(company, relevance_score)\<close> pairs differ.
\<close>

theorem strategies_differ_negative_topK:
  "no_boundary_tie [bullet_of ''A'' 90, bullet_of ''A'' 70] (- 1) 0
   \<and> filterBulletsByCompany [bullet_of ''A'' 90, bullet_of ''A'' 70] (- 1) 0
       = Inr [(''A'', [bullet_of ''A'' 90])]
   \<and> filterBulletsWithHeap [bullet_of ''A'' 90, bullet_of ''A'' 70] (- 1) 0 = Inr [(''A'', [])]
   \<and> outcome_pairs (filterBulletsByCompany [bullet_of ''A'' 90, bullet_of ''A'' 70] (- 1) 0)
       \<noteq> outcome_pairs (filterBulletsWithHeap [bullet_of ''A'' 90, bullet_of ''A'' 70] (- 1) 0)"
proof -
  have t: "no_boundary_tie [bullet_of ''A'' 90, bullet_of ''A'' 70] (- 1) 0"
    by (simp add: no_boundary_tie_def)
  have a: "filterBulletsByCompany [bullet_of ''A'' 90, bullet_of ''A'' 70] (- 1) 0
       = Inr [(''A'', [bullet_of ''A'' 90])]"
    by (simp add: example_simps run_simps)
  have b: "filterBulletsWithHeap [bullet_of ''A'' 90, bullet_of ''A'' 70] (- 1) 0 = Inr [(''A'', [])]"
    by (simp add: example_simps run_simps)
  show ?thesis unfolding a b using t by (simp add: outcome_pairs_def returned_pairs_def)
qed

text \<open>
  C3, amended. For \<open>topK \<ge> 0\<close> the two strategies have the same outcome up to the order
  of equal scores: both throw, or both return and the multisets of
  \<open>(company, relevance_score)\<close> pairs of the two mappings are equal. This needs no
  condition on ties. When no group has a tie at the K-th boundary, the two mappings
  moreover hold the same records in every group.
\<close>

theorem strategies_agree:
  assumes "0 \<le> topK"
  shows "outcome_pairs (filterBulletsByCompany bs topK minScore)
           = outcome_pairs (filterBulletsWithHeap bs topK minScore)
       \<and> (no_boundary_tie bs topK minScore \<longrightarrow>
            outcome_records (filterBulletsByCompany bs topK minScore)
              = outcome_records (filterBulletsWithHeap bs topK minScore))"
proof (cases "throws minScore bs")
  case True
  then show ?thesis
    by (simp add: filterBulletsByCompany_eq filterBulletsWithHeap_eq outcome_pairs_def
        outcome_records_def)
next
  case False
  have "mset (returned_pairs (map (\<lambda>k. (k, slice0 (Array_sort compare_desc (group_of minScore k bs)) topK))
            (created_keys bs)))
      = mset (returned_pairs (map (\<lambda>k. (k, Array_sort compare_desc
            (drain (foldl (heap_push topK) MinHeap_new (group_of minScore k bs)) [])))
            (created_keys bs)))"
    using group_pairs_agree [OF assms] by (intro pairs_agree) blast
  then have p: "outcome_pairs (filterBulletsByCompany bs topK minScore)
      = outcome_pairs (filterBulletsWithHeap bs topK minScore)"
    using False
    by (simp add: filterBulletsByCompany_eq filterBulletsWithHeap_eq outcome_pairs_def)
  have "outcome_records (filterBulletsByCompany bs topK minScore)
      = outcome_records (filterBulletsWithHeap bs topK minScore)"
    if nt: "no_boundary_tie bs topK minScore"
    using False tie_free_group [OF nt _ assms]
    by (simp add: filterBulletsByCompany_eq filterBulletsWithHeap_eq outcome_records_def)
  then show ?thesis using p by blast
qed

theorem strategies_agree_witness:
  "(0::int) \<le> 1 \<and> no_boundary_tie scenario 1 0
   \<and> outcome_pairs (filterBulletsByCompany scenario 1 0)
       = outcome_pairs (filterBulletsWithHeap scenario 1 0)
   \<and> outcome_records (filterBulletsByCompany scenario 1 0)
       = outcome_records (filterBulletsWithHeap scenario 1 0)
   \<and> outcome_pairs (filterBulletsWithHeap scenario 1 0)
       = Inr {#(''A'', Some 90), (''B'', Some 40)#}"
  using strategies_agree [of 1 scenario 0] scenario_no_tie
  by (simp add: scenario_heap_top1 outcome_pairs_def returned_pairs_def bullet_of_def)

text \<open>
  C4. Any sequence of \<^verbatim>\<open>insert\<close> calls on records with a numeric score, followed by
  \<^verbatim>\<open>extractMin\<close> calls until the heap is empty, returns the records in non-decreasing
  order of score; and it returns exactly the records inserted.
\<close>

theorem heap_extraction_order:
  "\<forall>b\<in>set bs. has_score b
     \<Longrightarrow> non_decreasing (extract_all (insert_all bs)) \<and> mset (extract_all (insert_all bs)) = mset bs"
proof -
  assume sc: "\<forall>b\<in>set bs. has_score b"
  let ?h = "insert_all bs"
  have h: "heap_ordered ?h" "mset ?h = mset bs"
    using fold_insert_inv [of "[]" bs] sc
    by (simp_all add: insert_all_def MinHeap_new_def heap_ordered_def)
  then have hs: "\<forall>b\<in>set ?h. has_score b" using sc by (metis set_mset_mset)
  have d: "sorted_wrt (\<lambda>a b. sc b \<le> sc a) (drain ?h []) \<and> mset (drain ?h []) = mset ?h + mset []"
    using h(1) hs by (intro drain_spec) simp_all
  then have "\<forall>b\<in>set (drain ?h []). has_score b" using hs by (metis add.right_neutral mset.simps(1) set_mset_mset)
  then have "non_increasing (drain ?h [])" using d by (simp add: non_increasing_sc)
  then have "non_decreasing (extract_all ?h)"
    by (simp add: non_increasing_def non_decreasing_def extract_all_def sorted_wrt_rev)
  then show ?thesis using d h(2) by (simp add: extract_all_def)
qed

theorem heap_extraction_order_witness:
  "extract_all (insert_all [bullet_of ''A'' 90, bullet_of ''A'' 50, bullet_of ''A'' 70])
     = [bullet_of ''A'' 50, bullet_of ''A'' 70, bullet_of ''A'' 90]
   \<and> non_decreasing (extract_all (insert_all [bullet_of ''A'' 90, bullet_of ''A'' 50, bullet_of ''A'' 70]))"
  using heap_extraction_order [of "[bullet_of ''A'' 90, bullet_of ''A'' 50, bullet_of ''A'' 70]"]
  by (simp add: has_score_def bullet_of_def insert_all_def extract_all_def run_simps)

text \<open>
  C5, as stated, fails: on an input with a record that has no \<^verbatim>\<open>relevance_score\<close> both
  strategies return normally, with that record dropped from its group.
\<close>

theorem missing_score_no_error:
  "filterBulletsByCompany [unscored] 5 0 = Inr [(''A'', [])]
   \<and> filterBulletsWithHeap [unscored] 5 0 = Inr [(''A'', [])]"
  by (simp add: example_simps run_simps)

text \<open>
  C5, amended. A record without \<^verbatim>\<open>relevance_score\<close> is treated as a record that scores
  below \<open>minScore\<close>: the outcome of either strategy, a mapping or an error, is the one it
  has when every such record is given a score below \<open>minScore\<close>; no group of a returned
  mapping holds a record without a score; and when a call throws, the input has a record
  with a score that meets \<open>minScore\<close> and whose group key names a property of
  \<^verbatim>\<open>Object.prototype\<close>, so that no error is due to a missing score.
\<close>

theorem missing_score_dropped:
  "filterBulletsByCompany (map (below_threshold minScore) bs) topK minScore
     = filterBulletsByCompany bs topK minScore
   \<and> filterBulletsWithHeap (map (below_threshold minScore) bs) topK minScore
     = filterBulletsWithHeap bs topK minScore
   \<and> (filterBulletsByCompany bs topK minScore = Inr r
        \<or> filterBulletsWithHeap bs topK minScore = Inr r
      \<longrightarrow> (\<forall>(k, g)\<in>set r. \<forall>b\<in>set g. has_score b))
   \<and> (filterBulletsByCompany bs topK minScore = Inl e
        \<or> filterBulletsWithHeap bs topK minScore = Inl e
      \<longrightarrow> (\<exists>b\<in>set bs. has_score b \<and> meets minScore b \<and> inherited (group_key b)))"
proof -
  have "\<forall>(k, g)\<in>set r. \<forall>b\<in>set g. has_score b"
    if "filterBulletsByCompany bs topK minScore = Inr r
        \<or> filterBulletsWithHeap bs topK minScore = Inr r"
    using entry_members [OF that] meets_has_score by fastforce
  moreover have "\<exists>b\<in>set bs. has_score b \<and> meets minScore b \<and> inherited (group_key b)"
    if "filterBulletsByCompany bs topK minScore = Inl e
        \<or> filterBulletsWithHeap bs topK minScore = Inl e"
    using throws_scored [OF throws_outcome [OF that]] .
  moreover have "filterBulletsByCompany (map (below_threshold minScore) bs) topK minScore
     = filterBulletsByCompany bs topK minScore"
    by (simp add: filterBulletsByCompany_eq created_keys_below throws_below group_of_below)
  moreover have "filterBulletsWithHeap (map (below_threshold minScore) bs) topK minScore
     = filterBulletsWithHeap bs topK minScore"
    by (simp add: filterBulletsWithHeap_eq created_keys_below throws_below group_of_below)
  ultimately show ?thesis by blast
qed

theorem missing_score_dropped_witness:
  "filterBulletsByCompany (map (below_threshold 0) [unscored, bullet_of ''A'' 90]) 5 0
     = Inr [(''A'', [bullet_of ''A'' 90])]
   \<and> filterBulletsWithHeap (map (below_threshold 0) [unscored, bullet_of ''A'' 90]) 5 0
     = Inr [(''A'', [bullet_of ''A'' 90])]
   \<and> has_score (bullet_of ''A'' 90) \<and> \<not> has_score unscored
   \<and> filterBulletsByCompany (map (below_threshold 0) [unscored, bullet_of ''constructor'' 90]) 5 0
     = Inl TypeError
   \<and> filterBulletsWithHeap (map (below_threshold 0) [unscored, bullet_of ''constructor'' 90]) 5 0
     = Inl TypeError
   \<and> meets 0 (bullet_of ''constructor'' 90)
   \<and> inherited (group_key (bullet_of ''constructor'' 90))"
  using missing_score_dropped [of 0 "[unscored, bullet_of ''A'' 90]" 5
      "[(''A'', [bullet_of ''A'' 90])]" TypeError]
    missing_score_dropped [of 0 "[unscored, bullet_of ''constructor'' 90]" 5 "[]" TypeError]
  by (simp add: unscored_sort unscored_heap unscored_inherited_throw)
     (simp add: has_score_def example_simps meets_def js_ge_def group_key_def inherited_def
        Object_prototype_names_def js_or_def toPropertyKey.simps)

text \<open>
  C6. On every empty heap that \<^verbatim>\<open>insert\<close> and \<^verbatim>\<open>extractMin\<close> calls can lead to,
  \<^verbatim>\<open>extractMin\<close> and \<^verbatim>\<open>peek\<close> return \<^verbatim>\<open>null\<close>, and \<^verbatim>\<open>extractMin\<close> leaves the heap
  as it was. Neither method has a failing branch: every array read of theirs is in range.
\<close>

theorem empty_heap_null:
  "reachable h \<Longrightarrow> heap_size h = 0 \<Longrightarrow> extractMin h = (None, h) \<and> peek h = None"
  by (simp add: heap_size_def extractMin_def peek_def)

theorem empty_heap_null_witness:
  "reachable (snd (extractMin (heap_insert MinHeap_new (bullet_of ''A'' 90))))
   \<and> heap_size (snd (extractMin (heap_insert MinHeap_new (bullet_of ''A'' 90)))) = 0
   \<and> extractMin (snd (extractMin (heap_insert MinHeap_new (bullet_of ''A'' 90)))) = (None, [])
   \<and> peek (snd (extractMin (heap_insert MinHeap_new (bullet_of ''A'' 90)))) = None"
proof -
  let ?h = "snd (extractMin (heap_insert MinHeap_new (bullet_of ''A'' 90)))"
  have r: "reachable ?h"
    by (intro reachable_extractMin reachable_insert reachable_new)
  have e: "?h = []" by (simp add: run_simps)
  then have z: "heap_size ?h = 0" by (simp add: heap_size_def)
  show ?thesis using empty_heap_null [OF r z] r z e by simp
qed

text \<open>
  C7. The scenario: three records of company \<open>A\<close> with scores 90, 50 and 70, one of
  company \<open>B\<close> with score 40, \<open>topK = 2\<close>, \<open>minScore = 60\<close>. Both strategies return
  the records of \<open>A\<close> with scores 90 and 70, in this order, and \<open>B\<close> with no record.
\<close>

theorem scenario_result:
  "filterBulletsByCompany scenario 2 60 =
     Inr [(''A'', [bullet_of ''A'' 90, bullet_of ''A'' 70]), (''B'', [])]
   \<and> filterBulletsWithHeap scenario 2 60 =
     Inr [(''A'', [bullet_of ''A'' 90, bullet_of ''A'' 70]), (''B'', [])]"
  by (simp add: scenario_sort scenario_heap)

text \<open>
  C8. Over the store, a call of either function, whether it returns or throws, leaves
  every cell that was there before the call as it was: the input array and every record
  keep their fields and elements. Every array of the mapping it returns holds references
  of the input array only, so each record of the result is a record of the input with
  all its fields. (By \<open>store_refines\<close> the mapping is the one that the functions on
  values return.)
\<close>

theorem inputs_untouched:
  assumes "bullets < length s"
    and "filterBulletsByCompany_st bullets topK minScore s = (s', res)
         \<or> filterBulletsWithHeap_st bullets topK minScore s = (s', res)"
  shows "frame s s'
       \<and> (\<forall>result. res = Inr result \<longrightarrow>
            (\<forall>(k, g)\<in>set (props s' result). set (elems s' g) \<subseteq> set (elems s bullets)))"
proof -
  let ?I = "set (elems s bullets)"
  let ?s1 = "s @ [Dict []]"
  have in1: "set (elems ?s1 bullets) \<subseteq> ?I" using assms(1) by (simp add: elems_alloc_old)
  have p0: "phase1 s ?I (length s) ?s1" using assms(1) by (rule phase1_start)
  have concl: "frame s s'
       \<and> (\<forall>result. res = Inr result \<longrightarrow>
            (\<forall>(k, g)\<in>set (props s' result). set (elems s' g) \<subseteq> ?I))"
    if p1: "phase1 s ?I (length s) s2"
      and r: "(case e of Some e \<Rightarrow> (s2, Inl e)
               | None \<Rightarrow> (fold step (props (s2 @ [Dict []]) (length s)) (s2 @ [Dict []]), Inr (length s2)))
              = (s', res)"
      and st: "\<And>t en. phase2 s ?I (props (s2 @ [Dict []]) (length s)) (length s2) t
                 \<Longrightarrow> en \<in> set (props (s2 @ [Dict []]) (length s))
                 \<Longrightarrow> phase2 s ?I (props (s2 @ [Dict []]) (length s)) (length s2) (step en t)"
    for s2 e and step :: "string \<times> addr \<Rightarrow> 'a store \<Rightarrow> 'a store"
  proof (cases e)
    case (Some err)
    then show ?thesis using r p1 by (auto simp: phase1_def)
  next
    case None
    let ?E = "props (s2 @ [Dict []]) (length s)"
    have "phase2 s ?I ?E (length s2) (fold step ?E (s2 @ [Dict []]))"
      using phase2_start [OF p1] st by (intro phase2_fold) simp_all
    then show ?thesis using r None by (fastforce simp: phase2_def owned_def)
  qed
  show ?thesis
    using assms(2)
  proof
    assume a: "filterBulletsByCompany_st bullets topK minScore s = (s', res)"
    obtain s2 e where fe: "forEach_st (groupStep_st minScore (length s)) (elems ?s1 bullets) ?s1 = (s2, e)"
      by (cases "forEach_st (groupStep_st minScore (length s)) (elems ?s1 bullets) ?s1")
    have "phase1 s ?I (length s) (fst (forEach_st (groupStep_st minScore (length s)) (elems ?s1 bullets) ?s1))"
      using p0 in1 by (intro phase1_forEach phase1_groupStep)
    then have p1: "phase1 s ?I (length s) s2" using fe by simp
    show ?thesis
    proof (rule concl [where ?s2.0 = s2 and e = e and step = "sliceStep topK (length s2)", OF p1])
      show "(case e of Some e \<Rightarrow> (s2, Inl e)
             | None \<Rightarrow> (fold (sliceStep topK (length s2)) (props (s2 @ [Dict []]) (length s))
                          (s2 @ [Dict []]), Inr (length s2))) = (s', res)"
        using a fe by (simp add: filterBulletsByCompany_st_def alloc_def split: option.splits)
    next
      fix t en
      assume "phase2 s ?I (props (s2 @ [Dict []]) (length s)) (length s2) t"
        and "en \<in> set (props (s2 @ [Dict []]) (length s))"
      then show "phase2 s ?I (props (s2 @ [Dict []]) (length s)) (length s2)
          (sliceStep topK (length s2) en t)"
        using phase2_sliceStep by (cases en) blast
    qed
  next
    assume a: "filterBulletsWithHeap_st bullets topK minScore s = (s', res)"
    obtain s2 e where fe: "forEach_st (heapStep_st topK minScore (length s)) (elems ?s1 bullets) ?s1 = (s2, e)"
      by (cases "forEach_st (heapStep_st topK minScore (length s)) (elems ?s1 bullets) ?s1")
    have "phase1 s ?I (length s) (fst (forEach_st (heapStep_st topK minScore (length s)) (elems ?s1 bullets) ?s1))"
      using p0 in1 by (intro phase1_forEach phase1_heapStep)
    then have p1: "phase1 s ?I (length s) s2" using fe by simp
    show ?thesis
    proof (rule concl [where ?s2.0 = s2 and e = e and step = "drainStep (length s2)", OF p1])
      show "(case e of Some e \<Rightarrow> (s2, Inl e)
             | None \<Rightarrow> (fold (drainStep (length s2)) (props (s2 @ [Dict []]) (length s))
                          (s2 @ [Dict []]), Inr (length s2))) = (s', res)"
        using a fe by (simp add: filterBulletsWithHeap_st_def alloc_def split: option.splits)
    next
      fix t en
      assume "phase2 s ?I (props (s2 @ [Dict []]) (length s)) (length s2) t"
        and "en \<in> set (props (s2 @ [Dict []]) (length s))"
      then show "phase2 s ?I (props (s2 @ [Dict []]) (length s)) (length s2)
          (drainStep (length s2) en t)"
        using phase2_drainStep by (cases en) blast
    qed
  qed
qed

theorem inputs_untouched_witness:
  "(4::nat) < length example_store
   \<and> filterBulletsWithHeap_st 4 2 60 example_store
       = (example_store @ [Dict [(''A'', 6), (''B'', 7)], Array [], Array [],
            Dict [(''A'', 9), (''B'', 10)], Array [0, 2], Array []], Inr 8)
   \<and> frame example_store
        (example_store @ [Dict [(''A'', 6), (''B'', 7)], Array [], Array [],
            Dict [(''A'', 9), (''B'', 10)], Array [0, 2], Array []])
   \<and> set [0, 2] \<subseteq> set (elems example_store 4)"
proof -
  let ?s' = "example_store @ [Dict [(''A'', 6), (''B'', 7)], Array [], Array [],
            Dict [(''A'', 9), (''B'', 10)], Array [0, 2], Array []]"
  have len: "(4::nat) < length example_store" by (simp add: example_store_def)
  have run: "filterBulletsWithHeap_st 4 2 60 example_store = (?s', Inr 8)"
    by (simp add: example_store_def filterBulletsWithHeap_st_def heapStep_st_def drainStep_def
        create_group_def on_array_def alloc_def elems_def props_def view_def example_simps
        run_simps)
  have "set (elems example_store 4) = {0, 1, 2, 3}"
    by (simp add: example_store_def elems_def)
  then show ?thesis using inputs_untouched [OF len disjI2 [OF run]] len run by simp
qed

text \<open>
  C9 at a record whose company names a property of \<^verbatim>\<open>Object.prototype\<close> and whose score
  is below \<open>minScore\<close>: the group key is \<open>constructor\<close>, and the mapping returned by
  either strategy has no key at all.
\<close>

theorem inherited_key_not_created:
  "group_key (bullet_of ''constructor'' 10) = ''constructor''
   \<and> filterBulletsByCompany [bullet_of ''constructor'' 10] 5 50 = Inr []
   \<and> filterBulletsWithHeap [bullet_of ''constructor'' 10] 5 50 = Inr []"
  by (simp add: example_simps run_simps)

text \<open>
  C10. Whenever either strategy returns a mapping, a record \<open>b\<close> of the input whose company
  is falsy has the group key \<open>Unknown\<close>; \<open>Unknown\<close> is a key of the mapping, no key
  occurs twice, the empty string is not a key, and \<open>b\<close> is in no group under another key.
  The group \<open>g\<close> under \<open>Unknown\<close> is made of the records of the input with this group
  key that meet \<open>minScore\<close>, and \<open>b\<close> is placed in it: when \<open>b\<close> meets \<open>minScore\<close> and
  at most \<open>topK\<close> records of that key do, \<open>b\<close> is in \<open>g\<close>; and for \<open>topK \<ge> 0\<close>, when \<open>b\<close>
  meets \<open>minScore\<close> and is not in \<open>g\<close>, then \<open>g\<close> is full, with \<open>topK\<close> records, each of a
  score at least that of \<open>b\<close>.
\<close>

theorem falsy_company_is_Unknown:
  assumes "filterBulletsByCompany bs topK minScore = Inr r
           \<or> filterBulletsWithHeap bs topK minScore = Inr r"
    and "b \<in> set bs" and "\<not> truthy (company b)"
  shows "group_key b = ''Unknown'' \<and> ''Unknown'' \<in> fst ` set r
       \<and> (\<forall>(k, g)\<in>set r. b \<in> set g \<longrightarrow> k = ''Unknown'') \<and> [] \<notin> fst ` set r
       \<and> distinct (map fst r)
       \<and> (\<exists>g. map_of r ''Unknown'' = Some g
             \<and> mset g \<subseteq># mset (group_of minScore ''Unknown'' bs)
             \<and> (meets minScore b \<and> int (length (group_of minScore ''Unknown'' bs)) \<le> topK
                  \<longrightarrow> b \<in> set g)
             \<and> (meets minScore b \<and> 0 \<le> topK \<and> b \<notin> set g
                  \<longrightarrow> int (length g) = topK
                      \<and> (\<forall>x\<in>set g. js_ge (relevance_score x) (relevance_score b))))"
proof -
  let ?G = "group_of minScore ''Unknown'' bs"
  have k: "group_key b = ''Unknown''" using assms(3) by (rule group_key_falsy)
  have keys: "fst ` set r = {k \<in> group_key ` set bs. \<not> inherited k}"
    using assms(1) by (rule group_keys_present)
  have u: "''Unknown'' \<in> fst ` set r"
    unfolding keys using k assms(2) Unknown_not_inherited by force
  have only: "\<forall>(k, g)\<in>set r. b \<in> set g \<longrightarrow> k = ''Unknown''"
    using entry_members [OF assms(1)] k by fastforce
  have ne: "[] \<notin> fst ` set r"
    unfolding keys using group_key_nonempty by (metis (mono_tags, lifting) imageE mem_Collect_eq)
  have d: "distinct (map fst r)"
    using keys_of_result [OF assms(1)] distinct_created_keys by simp
  obtain g where g: "(''Unknown'', g) \<in> set r" using u by auto
  have m: "map_of r ''Unknown'' = Some g" using d g by simp
  have sub: "mset g \<subseteq># mset ?G" using entry_sub [OF assms(1) g] by simp
  have inG: "b \<in> set ?G" if "meets minScore b"
    using that k assms(2) by (simp add: group_of_def)
  have scored: "\<forall>x\<in>set ?G. has_score x"
    using group_of_facts [of _ minScore "''Unknown''" bs] meets_has_score [of minScore] by blast
  have uncut: "b \<in> set g"
    if mb: "meets minScore b" and le: "int (length ?G) \<le> topK"
  proof -
    have "0 \<le> topK" using le by simp
    then have "topk (nat topK) (mset ?G) (mset g)" using entry_topk [OF assms(1) g] by simp
    moreover have "size (mset ?G) \<le> nat topK" using le by simp
    ultimately have "mset g = mset ?G" by (rule topk_all)
    then have "set g = set ?G" by (rule mset_eq_setD)
    then show ?thesis using inG [OF mb] by simp
  qed
  have cut: "int (length g) = topK \<and> (\<forall>x\<in>set g. js_ge (relevance_score x) (relevance_score b))"
    if mb: "meets minScore b" and nn: "0 \<le> topK" and out: "b \<notin> set g"
  proof -
    have t: "topk (nat topK) (mset ?G) (mset g)" using entry_topk [OF assms(1) g nn] .
    have bG: "b \<in># mset ?G" using inG [OF mb] by simp
    have bg: "b \<notin># mset g" using out by simp
    have c: "size (mset g) = nat topK \<and> (\<forall>x\<in>#mset g. sc b \<le> sc x)"
      using t bG bg by (rule topk_cut)
    have len: "int (length g) = topK" using c nn by simp
    have "js_ge (relevance_score x) (relevance_score b)" if x: "x \<in> set g" for x
    proof -
      have "x \<in> set ?G" using x sub by (meson mset_subset_eqD in_multiset_in_set)
      then have "has_score x" using scored by blast
      moreover have "sc b \<le> sc x" using c x by simp
      ultimately show ?thesis using meets_has_score [OF mb] by (simp add: js_ge_sc)
    qed
    then show ?thesis using len by blast
  qed
  have 1: "meets minScore b \<and> int (length ?G) \<le> topK \<longrightarrow> b \<in> set g"
    using uncut by simp
  have 2: "meets minScore b \<and> 0 \<le> topK \<and> b \<notin> set g
      \<longrightarrow> int (length g) = topK \<and> (\<forall>x\<in>set g. js_ge (relevance_score x) (relevance_score b))"
    using cut by simp
  show ?thesis
    by (intro conjI exI [of _ g]) (rule k u only ne d m sub 1 2)+
qed

theorem falsy_company_is_Unknown_witness:
  "filterBulletsWithHeap falsy_examples 5 0 = Inr [(''Unknown'', falsy_examples)]
   \<and> filterBulletsByCompany falsy_examples 5 0 = Inr [(''Unknown'', falsy_examples)]
   \<and> group_key \<lparr>company = JNull, relevance_score = Some 50, payload = ()\<rparr> = ''Unknown''
   \<and> map_of [(''Unknown'', falsy_examples)] ''Unknown'' = Some falsy_examples
   \<and> \<lparr>company = JNull, relevance_score = Some 50, payload = ()\<rparr> \<in> set falsy_examples
   \<and> meets 0 \<lparr>company = JNull, relevance_score = Some 50, payload = ()\<rparr>
   \<and> int (length (group_of 0 ''Unknown'' falsy_examples)) \<le> 5
   \<and> [] \<notin> fst ` set [(''Unknown'', falsy_examples)]"
  using falsy_company_is_Unknown [of falsy_examples 5 0 "[(''Unknown'', falsy_examples)]"
      "\<lparr>company = JNull, relevance_score = Some 50, payload = ()\<rparr>"]
    falsy_heap falsy_sort
  by (simp add: falsy_examples_def group_of_def meets_def js_ge_def group_key_def js_or_def)

end
